theory Spec2Isabelle
  imports Complex_Main
begin

section \<open>The multi-tau correlator of correlator_likh.cc\<close>

text \<open>
  The class \<^verbatim>\<open>Correlator_Likh\<close> is embedded as a pair of records: the three
  parameters that \<^verbatim>\<open>setsize\<close> stores (they never change afterwards), and the mutable
  members. The C++ arrays \<^verbatim>\<open>double**\<close>, \<^verbatim>\<open>unsigned long int**\<close>, \<^verbatim>\<open>double*\<close> and
  \<^verbatim>\<open>unsigned int*\<close> are lists, indexed as in the source. A \<^verbatim>\<open>double\<close> is read as a
  real number: sums, products and quotients are exact, rounding is outside the model.
  The unsigned counters are natural numbers; in every state that satisfies the index
  invariants they stay below \<^verbatim>\<open>p\<close> and \<^verbatim>\<open>m\<close>, far from the 32-bit edge.
  An access outside an allocation is undefined behaviour in C++; the operations return
  \<open>None\<close> for it.
\<close>

record config =
  numcorrelators :: nat
  p :: nat
  m :: nat

text \<open>\<^verbatim>\<open>d_min = p / m\<close> and \<^verbatim>\<open>length = numcorrelators * p\<close>, as \<^verbatim>\<open>setsize\<close> computes them.\<close>

definition d_min :: "config \<Rightarrow> nat" where
  "d_min c = p c div m c"

definition length_out :: "config \<Rightarrow> nat" where
  "length_out c = numcorrelators c * p c"

record correlator =
  shift :: "real list list"
  correlation :: "real list list"
  ncorrelation :: "nat list list"
  accumulator :: "real list"
  naccumulator :: "nat list"
  insertindex :: "nat list"
  t :: "real list"
  f :: "real list"
  npcorr :: nat
  kmax :: nat
  accval :: real

text \<open>
  \<^verbatim>\<open>initialize\<close> overwrites every member, so its result depends on the sizes only.
  The literal \<^verbatim>\<open>-2E10\<close> marks a slot of \<^verbatim>\<open>shift\<close> that has not been written.
\<close>

definition initialize :: "config \<Rightarrow> correlator" where
  "initialize c =
     \<lparr> shift = replicate (numcorrelators c) (replicate (p c) (- 20000000000)),
       correlation = replicate (numcorrelators c) (replicate (p c) 0),
       ncorrelation = replicate (numcorrelators c) (replicate (p c) 0),
       accumulator = replicate (numcorrelators c) 0,
       naccumulator = replicate (numcorrelators c) 0,
       insertindex = replicate (numcorrelators c) 0,
       t = replicate (length_out c) 0,
       f = replicate (length_out c) 0,
       npcorr = 0,
       kmax = 0,
       accval = 0 \<rparr>"

text \<open>The arrays of a state have the sizes that \<^verbatim>\<open>setsize\<close> allocated.\<close>

definition allocated :: "config \<Rightarrow> correlator \<Rightarrow> bool" where
  "allocated c s \<longleftrightarrow>
     length (shift s) = numcorrelators c \<and>
     length (correlation s) = numcorrelators c \<and>
     length (ncorrelation s) = numcorrelators c \<and>
     length (accumulator s) = numcorrelators c \<and>
     length (naccumulator s) = numcorrelators c \<and>
     length (insertindex s) = numcorrelators c \<and>
     list_all (\<lambda>row. length row = p c) (shift s) \<and>
     list_all (\<lambda>row. length row = p c) (correlation s) \<and>
     list_all (\<lambda>row. length row = p c) (ncorrelation s) \<and>
     length (t s) = length_out c \<and>
     length (f s) = length_out c"

subsection \<open>add\<close>

text \<open>Lines 99 to 109: the new value enters the shift array and the accumulator.\<close>

definition add_insert :: "real \<Rightarrow> nat \<Rightarrow> correlator \<Rightarrow> correlator" where
  "add_insert w k s =
     s \<lparr> kmax := (if kmax s < k then k else kmax s),
         shift := (shift s)[k := (shift s ! k)[insertindex s ! k := w]],
         accval := (if k = 0 then accval s + w else accval s),
         accumulator := (accumulator s)[k := accumulator s ! k + w],
         naccumulator := (naccumulator s)[k := naccumulator s ! k + 1] \<rparr>"

text \<open>Lines 112 and 113: the accumulator is emptied after the recursive call.\<close>

definition add_reset :: "nat \<Rightarrow> correlator \<Rightarrow> correlator" where
  "add_reset k s =
     s \<lparr> accumulator := (accumulator s)[k := 0],
         naccumulator := (naccumulator s)[k := 0] \<rparr>"

text \<open>Lines 121 to 124: one product enters the sum when the older slot is filled.\<close>

definition corr_step :: "nat \<Rightarrow> nat \<Rightarrow> nat \<Rightarrow> nat \<Rightarrow> correlator \<Rightarrow> correlator" where
  "corr_step k ind1 j ind2 s =
     (if shift s ! k ! ind2 > - 10000000000 then
        s \<lparr> correlation := (correlation s)[k := (correlation s ! k)
               [j := correlation s ! k ! j + shift s ! k ! ind1 * shift s ! k ! ind2]],
            ncorrelation := (ncorrelation s)[k := (ncorrelation s ! k)
               [j := ncorrelation s ! k ! j + 1]] \<rparr>
      else s)"

text \<open>
  The loop of the first correlator (lines 120 to 127): \<^verbatim>\<open>ind2\<close> is a signed \<^verbatim>\<open>int\<close>
  that walks backwards and wraps after the decrement.
\<close>

function corr_first :: "config \<Rightarrow> nat \<Rightarrow> nat \<Rightarrow> nat \<Rightarrow> int \<Rightarrow> correlator \<Rightarrow> correlator" where
  "corr_first c k ind1 j ind2 s =
     (if j < p c then
        corr_first c k ind1 (j + 1)
          (if ind2 - 1 < 0 then ind2 - 1 + int (p c) else ind2 - 1)
          (corr_step k ind1 j (nat ind2) s)
      else s)"
  by pat_completeness auto
termination
  by (relation "measure (\<lambda>(c, k, ind1, j, ind2, s). p c - j)") auto

declare corr_first.simps [simp del]

text \<open>
  The loop of the other correlators (lines 130 to 137): the wrap comes before the read,
  the decrement after it.
\<close>

function corr_next :: "config \<Rightarrow> nat \<Rightarrow> nat \<Rightarrow> nat \<Rightarrow> int \<Rightarrow> correlator \<Rightarrow> correlator" where
  "corr_next c k ind1 j ind2 s =
     (if j < p c then
        corr_next c k ind1 (j + 1)
          ((if ind2 < 0 then ind2 + int (p c) else ind2) - 1)
          (corr_step k ind1 j (nat (if ind2 < 0 then ind2 + int (p c) else ind2)) s)
      else s)"
  by pat_completeness auto
termination
  by (relation "measure (\<lambda>(c, k, ind1, j, ind2, s). p c - j)") auto

declare corr_next.simps [simp del]

text \<open>Lines 117 to 138.\<close>

definition add_correlate :: "config \<Rightarrow> nat \<Rightarrow> correlator \<Rightarrow> correlator" where
  "add_correlate c k s =
     (let ind1 = insertindex s ! k in
      if k = 0 then corr_first c k ind1 0 (int ind1) s
      else corr_next c k ind1 (d_min c) (int ind1 - int (d_min c)) s)"

text \<open>Lines 140 and 141.\<close>

definition add_advance :: "config \<Rightarrow> nat \<Rightarrow> correlator \<Rightarrow> correlator" where
  "add_advance c k s =
     s \<lparr> insertindex := (insertindex s)[k :=
           (if insertindex s ! k + 1 = p c then 0 else insertindex s ! k + 1)] \<rparr>"

text \<open>
  \<^verbatim>\<open>add(w, k)\<close>. The guard of line 98 tests equality only: a level above
  \<^verbatim>\<open>numcorrelators\<close> passes it and line 102 indexes \<^verbatim>\<open>shift\<close> past its end. The
  same line writes past the row when \<^verbatim>\<open>insertindex[k]\<close> is not below \<^verbatim>\<open>p\<close>.
\<close>

function add :: "config \<Rightarrow> real \<Rightarrow> nat \<Rightarrow> correlator \<Rightarrow> correlator option" where
  "add c w k s =
     (if k = numcorrelators c then Some s
      else if numcorrelators c < k \<or> p c \<le> insertindex s ! k then None
      else if naccumulator (add_insert w k s) ! k = m c then
        (case add c (accumulator (add_insert w k s) ! k / real (m c)) (k + 1) (add_insert w k s) of
           None \<Rightarrow> None
         | Some s' \<Rightarrow> Some (add_advance c k (add_correlate c k (add_reset k s'))))
      else Some (add_advance c k (add_correlate c k (add_insert w k s))))"
  by pat_completeness auto
termination
  by (relation "measure (\<lambda>(c, w, k, s). numcorrelators c - k)") auto

declare add.simps [simp del]

text \<open>The caller's loop: one \<^verbatim>\<open>add(x, 0)\<close> for each new sample.\<close>

fun add_all :: "config \<Rightarrow> real list \<Rightarrow> correlator \<Rightarrow> correlator option" where
  "add_all c [] s = Some s"
| "add_all c (x # xs) s = (case add c x 0 s of None \<Rightarrow> None | Some s' \<Rightarrow> add_all c xs s')"

subsection \<open>evaluate\<close>

text \<open>Line 157.\<close>

definition eval_aux :: "bool \<Rightarrow> correlator \<Rightarrow> real" where
  "eval_aux nrm s =
     (if nrm then (accval s / real (ncorrelation s ! 0 ! 0)) * (accval s / real (ncorrelation s ! 0 ! 0))
      else 0)"

text \<open>Lines 161 to 165 and 171 to 175: one output pair, written at \<^verbatim>\<open>im\<close>.\<close>

definition emit :: "real \<Rightarrow> real \<Rightarrow> nat \<Rightarrow> nat \<Rightarrow> correlator \<times> nat \<Rightarrow> correlator \<times> nat" where
  "emit aux lag k i out =
     (case out of (s, im) \<Rightarrow>
        if 0 < ncorrelation s ! k ! i then
          (s \<lparr> t := (t s)[im := lag],
               f := (f s)[im := correlation s ! k ! i / real (ncorrelation s ! k ! i) - aux] \<rparr>,
           im + 1)
        else (s, im))"

function eval_first :: "config \<Rightarrow> real \<Rightarrow> nat \<Rightarrow> correlator \<times> nat \<Rightarrow> correlator \<times> nat" where
  "eval_first c aux i out =
     (if i < p c then eval_first c aux (i + 1) (emit aux (real i) 0 i out) else out)"
  by pat_completeness auto
termination
  by (relation "measure (\<lambda>(c, aux, i, out). p c - i)") auto

declare eval_first.simps [simp del]

function eval_lags :: "config \<Rightarrow> real \<Rightarrow> nat \<Rightarrow> nat \<Rightarrow> correlator \<times> nat \<Rightarrow> correlator \<times> nat" where
  "eval_lags c aux k i out =
     (if i < p c then eval_lags c aux k (i + 1) (emit aux (real i * real (m c) ^ k) k i out)
      else out)"
  by pat_completeness auto
termination
  by (relation "measure (\<lambda>(c, aux, k, i, out). p c - i)") auto

declare eval_lags.simps [simp del]

lemma emit_kmax: "kmax (fst (emit aux lag k i out)) = kmax (fst out)"
  by (cases out) (simp add: emit_def)

lemma eval_lags_kmax: "kmax (fst (eval_lags c aux k i out)) = kmax (fst out)"
proof (induction c aux k i out rule: eval_lags.induct)
  case (1 c aux k i out)
  show ?case
  proof (cases "i < p c")
    case True
    with "1" show ?thesis
      by (subst eval_lags.simps) (simp add: emit_kmax)
  next
    case False
    then show ?thesis
      by (subst eval_lags.simps) simp
  qed
qed

text \<open>The outer loop of lines 169 to 177 compares the level with \<^verbatim>\<open>kmax\<close> each round.\<close>

function eval_levels :: "config \<Rightarrow> real \<Rightarrow> nat \<Rightarrow> correlator \<times> nat \<Rightarrow> correlator \<times> nat" where
  "eval_levels c aux k out =
     (if k < kmax (fst out) then eval_levels c aux (k + 1) (eval_lags c aux k (d_min c) out)
      else out)"
  by pat_completeness auto
termination
proof (relation "measure (\<lambda>(c, aux, k, out). kmax (fst out) - k)")
  show "wf (measure (\<lambda>(c, aux, k, out). kmax (fst out) - k))"
    by simp
next
  fix c :: config and aux :: real and k :: nat and out :: "correlator \<times> nat"
  assume "k < kmax (fst out)"
  then show "((c, aux, k + 1, eval_lags c aux k (d_min c) out), (c, aux, k, out))
      \<in> measure (\<lambda>(c, aux, k, out). kmax (fst out) - k)"
    by (simp add: eval_lags_kmax)
qed

declare eval_levels.simps [simp del]

text \<open>
  \<^verbatim>\<open>evaluate(norm)\<close>. With no level, no lag bin, or \<^verbatim>\<open>kmax\<close> above the number of
  levels the loops read \<^verbatim>\<open>ncorrelation\<close> outside its allocation.
\<close>

definition evaluate :: "config \<Rightarrow> bool \<Rightarrow> correlator \<Rightarrow> correlator option" where
  "evaluate c nrm s =
     (if numcorrelators c = 0 \<or> p c = 0 \<or> numcorrelators c < kmax s then None
      else
        (case eval_levels c (eval_aux nrm s) 1 (eval_first c (eval_aux nrm s) 0 (s, 0)) of
           (s', im) \<Rightarrow> Some (s' \<lparr> npcorr := im \<rparr>)))"

subsection \<open>What the correlation loops touch\<close>

lemma corr_step_fields [simp]:
  "shift (corr_step k ind1 j ind2 s) = shift s"
  "accumulator (corr_step k ind1 j ind2 s) = accumulator s"
  "naccumulator (corr_step k ind1 j ind2 s) = naccumulator s"
  "insertindex (corr_step k ind1 j ind2 s) = insertindex s"
  "t (corr_step k ind1 j ind2 s) = t s"
  "f (corr_step k ind1 j ind2 s) = f s"
  "npcorr (corr_step k ind1 j ind2 s) = npcorr s"
  "kmax (corr_step k ind1 j ind2 s) = kmax s"
  "accval (corr_step k ind1 j ind2 s) = accval s"
  by (simp_all add: corr_step_def)

text \<open>
  A property that every single step keeps is kept by both loops. The step is only ever
  taken at a lag below \<^verbatim>\<open>p\<close> and at a slot inside the row.
\<close>

lemma corr_first_rule:
  assumes "P s" and "0 \<le> ind2" and "ind2 < int (p c)"
    and step: "\<And>j i s. j < p c \<Longrightarrow> i < p c \<Longrightarrow> P s \<Longrightarrow> P (corr_step k ind1 j i s)"
  shows "P (corr_first c k ind1 j ind2 s)"
  using assms(1-3)
proof (induction "p c - j" arbitrary: j ind2 s)
  case 0
  then show ?case
    by (subst corr_first.simps) simp
next
  case (Suc n)
  then have "j < p c"
    by simp
  moreover have "P (corr_step k ind1 j (nat ind2) s)"
    using \<open>j < p c\<close> Suc.prems by (intro step) auto
  moreover have "n = p c - (j + 1)"
    using Suc.hyps(2) by simp
  ultimately show ?case
    using Suc.hyps(1) [of "j + 1"] Suc.prems by (subst corr_first.simps) auto
qed

lemma corr_next_rule:
  assumes "P s" and "- int (p c) \<le> ind2" and "ind2 < int (p c)"
    and step: "\<And>j i s. j < p c \<Longrightarrow> i < p c \<Longrightarrow> P s \<Longrightarrow> P (corr_step k ind1 j i s)"
  shows "P (corr_next c k ind1 j ind2 s)"
  using assms(1-3)
proof (induction "p c - j" arbitrary: j ind2 s)
  case 0
  then show ?case
    by (subst corr_next.simps) simp
next
  case (Suc n)
  then have "j < p c"
    by simp
  moreover have "P (corr_step k ind1 j (nat (if ind2 < 0 then ind2 + int (p c) else ind2)) s)"
    using \<open>j < p c\<close> Suc.prems by (intro step) auto
  moreover have "n = p c - (j + 1)"
    using Suc.hyps(2) by simp
  ultimately show ?case
    using Suc.hyps(1) [of "j + 1"] Suc.prems by (subst corr_next.simps) auto
qed

lemma add_correlate_rule:
  assumes "P s" and "insertindex s ! k < p c"
    and "\<And>j i s'. j < p c \<Longrightarrow> i < p c \<Longrightarrow> P s' \<Longrightarrow> P (corr_step k (insertindex s ! k) j i s')"
  shows "P (add_correlate c k s)"
proof (cases "k = 0")
  case True
  with assms show ?thesis
    by (simp add: add_correlate_def Let_def) (rule corr_first_rule, auto)
next
  case False
  have "d_min c \<le> p c"
    by (simp add: d_min_def div_le_dividend)
  with False assms show ?thesis
    by (simp add: add_correlate_def Let_def) (rule corr_next_rule, auto)
qed


lemma corr_first_any:
  assumes "P s" and step: "\<And>j i s. P s \<Longrightarrow> P (corr_step k ind1 j i s)"
  shows "P (corr_first c k ind1 j ind2 s)"
  using assms(1)
proof (induction "p c - j" arbitrary: j ind2 s)
  case 0
  then show ?case
    by (subst corr_first.simps) simp
next
  case (Suc n)
  from Suc.hyps(2) have "n = p c - (j + 1)"
    by simp
  moreover from Suc.hyps(2) have "j < p c"
    by simp
  ultimately show ?case
    using Suc.hyps(1) [of "j + 1"] step [OF Suc.prems] by (subst corr_first.simps) simp
qed

lemma corr_next_any:
  assumes "P s" and step: "\<And>j i s. P s \<Longrightarrow> P (corr_step k ind1 j i s)"
  shows "P (corr_next c k ind1 j ind2 s)"
  using assms(1)
proof (induction "p c - j" arbitrary: j ind2 s)
  case 0
  then show ?case
    by (subst corr_next.simps) simp
next
  case (Suc n)
  from Suc.hyps(2) have "n = p c - (j + 1)"
    by simp
  moreover from Suc.hyps(2) have "j < p c"
    by simp
  ultimately show ?case
    using Suc.hyps(1) [of "j + 1"] step [OF Suc.prems] by (subst corr_next.simps) simp
qed

lemma add_correlate_any:
  assumes "P s" and "\<And>j i s'. P s' \<Longrightarrow> P (corr_step k (insertindex s ! k) j i s')"
  shows "P (add_correlate c k s)"
proof -
  have "P (corr_first c k (insertindex s ! k) 0 (int (insertindex s ! k)) s)"
    by (rule corr_first_any [of P, OF assms(1)], rule assms(2))
  moreover have "P (corr_next c k (insertindex s ! k) (d_min c)
      (int (insertindex s ! k) - int (d_min c)) s)"
    by (rule corr_next_any [of P, OF assms(1)], rule assms(2))
  ultimately show ?thesis
    unfolding add_correlate_def Let_def by (cases "k = 0") simp_all
qed

lemma add_correlate_fields [simp]:
  "shift (add_correlate c k s) = shift s"
  "accumulator (add_correlate c k s) = accumulator s"
  "naccumulator (add_correlate c k s) = naccumulator s"
  "insertindex (add_correlate c k s) = insertindex s"
  "t (add_correlate c k s) = t s"
  "f (add_correlate c k s) = f s"
  "npcorr (add_correlate c k s) = npcorr s"
  "kmax (add_correlate c k s) = kmax s"
  "accval (add_correlate c k s) = accval s"
  by (rule add_correlate_any, simp, simp)+

lemma corr_step_other:
  "j \<noteq> k \<Longrightarrow> correlation (corr_step k ind1 l i s) ! j = correlation s ! j"
  "j \<noteq> k \<Longrightarrow> ncorrelation (corr_step k ind1 l i s) ! j = ncorrelation s ! j"
  by (simp_all add: corr_step_def)

lemma add_correlate_other:
  "j \<noteq> k \<Longrightarrow> correlation (add_correlate c k s) ! j = correlation s ! j"
  "j \<noteq> k \<Longrightarrow> ncorrelation (add_correlate c k s) ! j = ncorrelation s ! j"
  by (rule add_correlate_any, simp, simp add: corr_step_other)+


subsection \<open>The structure of a call that returns\<close>

text \<open>The members of one level, and the members that belong to no level.\<close>

definition level :: "correlator \<Rightarrow> nat \<Rightarrow> real list \<times> real list \<times> nat list \<times> real \<times> nat \<times> nat" where
  "level s j = (shift s ! j, correlation s ! j, ncorrelation s ! j,
     accumulator s ! j, naccumulator s ! j, insertindex s ! j)"

definition outputs :: "correlator \<Rightarrow> real list \<times> real list \<times> nat" where
  "outputs s = (t s, f s, npcorr s)"

text \<open>Lines 117 to 141, the part of \<^verbatim>\<open>add\<close> after the recursive call.\<close>

definition add_finish :: "config \<Rightarrow> nat \<Rightarrow> correlator \<Rightarrow> correlator" where
  "add_finish c k s = add_advance c k (add_correlate c k s)"

lemma add_Some_induct [consumes 1, case_names drop plain cascade]:
  assumes "add c w k s = Some s'"
    and drop: "\<And>w s. P w (numcorrelators c) s s"
    and plain: "\<And>w k s. k < numcorrelators c \<Longrightarrow> insertindex s ! k < p c \<Longrightarrow>
        naccumulator (add_insert w k s) ! k \<noteq> m c \<Longrightarrow>
        P w k s (add_finish c k (add_insert w k s))"
    and cascade: "\<And>w k s u. k < numcorrelators c \<Longrightarrow> insertindex s ! k < p c \<Longrightarrow>
        naccumulator (add_insert w k s) ! k = m c \<Longrightarrow>
        add c (accumulator (add_insert w k s) ! k / real (m c)) (k + 1) (add_insert w k s) = Some u \<Longrightarrow>
        P (accumulator (add_insert w k s) ! k / real (m c)) (k + 1) (add_insert w k s) u \<Longrightarrow>
        P w k s (add_finish c k (add_reset k u))"
  shows "P w k s s'"
  using assms(1)
proof (induction "numcorrelators c - k" arbitrary: w k s s')
  case 0
  then have "k = numcorrelators c" and "s' = s"
    by (auto simp: add.simps [of c w k s] split: if_splits)
  then show ?case
    by (simp add: drop)
next
  case (Suc n)
  then have k: "k < numcorrelators c"
    by simp
  with Suc.prems have ins: "insertindex s ! k < p c"
    by (auto simp: add.simps [of c w k s] split: if_splits)
  show ?case
  proof (cases "naccumulator (add_insert w k s) ! k = m c")
    case False
    with k ins Suc.prems have "s' = add_finish c k (add_insert w k s)"
      by (simp add: add.simps [of c w k s] add_finish_def)
    with plain [OF k ins False] show ?thesis
      by simp
  next
    case True
    with k ins Suc.prems obtain u
      where u: "add c (accumulator (add_insert w k s) ! k / real (m c)) (k + 1) (add_insert w k s) = Some u"
        and s': "s' = add_finish c k (add_reset k u)"
      by (auto simp: add.simps [of c w k s] add_finish_def split: option.splits)
    from Suc.hyps(2) have "n = numcorrelators c - (k + 1)"
      by simp
    from Suc.hyps(1) [OF this u] cascade [OF k ins True u] s' show ?thesis
      by simp
  qed
qed

lemma level_add_insert: "j \<noteq> k \<Longrightarrow> level (add_insert w k s) j = level s j"
  by (simp add: level_def add_insert_def)

lemma level_add_reset: "j \<noteq> k \<Longrightarrow> level (add_reset k s) j = level s j"
  by (simp add: level_def add_reset_def)

lemma level_add_finish: "j \<noteq> k \<Longrightarrow> level (add_finish c k s) j = level s j"
  by (simp add: level_def add_finish_def add_advance_def add_correlate_other)

lemma outputs_add_insert [simp]: "outputs (add_insert w k s) = outputs s"
  by (simp add: outputs_def add_insert_def)

lemma outputs_add_reset [simp]: "outputs (add_reset k s) = outputs s"
  by (simp add: outputs_def add_reset_def)

lemma outputs_add_finish [simp]: "outputs (add_finish c k s) = outputs s"
  by (simp add: outputs_def add_finish_def add_advance_def)

lemma accval_add_insert: "0 < k \<Longrightarrow> accval (add_insert w k s) = accval s"
  by (simp add: add_insert_def)

lemma accval_add_reset [simp]: "accval (add_reset k s) = accval s"
  by (simp add: add_reset_def)

lemma accval_add_finish [simp]: "accval (add_finish c k s) = accval s"
  by (simp add: add_finish_def add_advance_def)

lemma add_level_below: "add c w k s = Some s' \<Longrightarrow> \<forall>j<k. level s' j = level s j"
  by (induction rule: add_Some_induct)
    (simp_all add: level_add_insert level_add_reset level_add_finish)

lemma add_outputs: "add c w k s = Some s' \<Longrightarrow> outputs s' = outputs s"
  by (induction rule: add_Some_induct) simp_all

lemma add_accval: "add c w k s = Some s' \<Longrightarrow> 0 < k \<longrightarrow> accval s' = accval s"
  by (induction rule: add_Some_induct) (simp_all add: accval_add_insert)

lemma insertindex_add_insert [simp]: "insertindex (add_insert w k s) = insertindex s"
  by (simp add: add_insert_def)

lemma add_returns:
  assumes "k \<le> numcorrelators c" and "\<forall>j<numcorrelators c. insertindex s ! j < p c"
  shows "\<exists>s'. add c w k s = Some s'"
  using assms
proof (induction "numcorrelators c - k" arbitrary: w k s)
  case 0
  then show ?case
    by (simp add: add.simps [of c w k s])
next
  case (Suc n)
  then have k: "k < numcorrelators c"
    by simp
  with Suc.prems have ins: "insertindex s ! k < p c"
    by simp
  from Suc.hyps(2) have "n = numcorrelators c - (k + 1)"
    by simp
  from Suc.hyps(1) [OF this, of "add_insert w k s"] k Suc.prems(2)
  obtain u where "add c (accumulator (add_insert w k s) ! k / real (m c)) (k + 1) (add_insert w k s) = Some u"
    by fastforce
  with k ins show ?case
    by (simp add: add.simps [of c w k s])
qed

text \<open>
  C10. A call \<^verbatim>\<open>add(w, k)\<close> at a level \<open>1 \<le> k < numcorrelators\<close> that returns leaves
  \<^verbatim>\<open>accval\<close> as it was, and leaves every member of every level below \<open>k\<close> as it was:
  the shift row, the correlation and count rows, the accumulator and its count, and the
  insert index.
\<close>

theorem add_touches_levels_from_k_up:
  assumes "1 \<le> k" and "k < numcorrelators c" and "add c w k s = Some s'"
  shows "accval s' = accval s \<and>
    (\<forall>j<k. shift s' ! j = shift s ! j \<and> correlation s' ! j = correlation s ! j \<and>
       ncorrelation s' ! j = ncorrelation s ! j \<and> accumulator s' ! j = accumulator s ! j \<and>
       naccumulator s' ! j = naccumulator s ! j \<and> insertindex s' ! j = insertindex s ! j)"
proof
  from add_accval [OF assms(3)] assms(1) show "accval s' = accval s"
    by simp
next
  from add_level_below [OF assms(3)] show "\<forall>j<k. shift s' ! j = shift s ! j \<and>
      correlation s' ! j = correlation s ! j \<and> ncorrelation s' ! j = ncorrelation s ! j \<and>
      accumulator s' ! j = accumulator s ! j \<and> naccumulator s' ! j = naccumulator s ! j \<and>
      insertindex s' ! j = insertindex s ! j"
    by (simp add: level_def)
qed

theorem add_touches_levels_from_k_up_witness:
  "\<exists>s'. add \<lparr>numcorrelators = 3, p = 4, m = 2\<rparr> 5 1 (initialize \<lparr>numcorrelators = 3, p = 4, m = 2\<rparr>) = Some s' \<and>
     accval s' = accval (initialize \<lparr>numcorrelators = 3, p = 4, m = 2\<rparr>) \<and>
     shift s' ! 0 = shift (initialize \<lparr>numcorrelators = 3, p = 4, m = 2\<rparr>) ! 0 \<and>
     correlation s' ! 0 = correlation (initialize \<lparr>numcorrelators = 3, p = 4, m = 2\<rparr>) ! 0 \<and>
     ncorrelation s' ! 0 = ncorrelation (initialize \<lparr>numcorrelators = 3, p = 4, m = 2\<rparr>) ! 0 \<and>
     accumulator s' ! 0 = accumulator (initialize \<lparr>numcorrelators = 3, p = 4, m = 2\<rparr>) ! 0 \<and>
     naccumulator s' ! 0 = naccumulator (initialize \<lparr>numcorrelators = 3, p = 4, m = 2\<rparr>) ! 0 \<and>
     insertindex s' ! 0 = insertindex (initialize \<lparr>numcorrelators = 3, p = 4, m = 2\<rparr>) ! 0 \<and>
     shift s' ! 1 \<noteq> shift (initialize \<lparr>numcorrelators = 3, p = 4, m = 2\<rparr>) ! 1"
proof -
  obtain s' where s': "add \<lparr>numcorrelators = 3, p = 4, m = 2\<rparr> 5 1
      (initialize \<lparr>numcorrelators = 3, p = 4, m = 2\<rparr>) = Some s'"
    using add_returns [of 1 "\<lparr>numcorrelators = 3, p = 4, m = 2\<rparr>"
        "initialize \<lparr>numcorrelators = 3, p = 4, m = 2\<rparr>" 5]
    by (auto simp: initialize_def)
  have "shift (the (add \<lparr>numcorrelators = 3, p = 4, m = 2\<rparr> 5 1
      (initialize \<lparr>numcorrelators = 3, p = 4, m = 2\<rparr>))) ! 1
      \<noteq> shift (initialize \<lparr>numcorrelators = 3, p = 4, m = 2\<rparr>) ! 1"
    by code_simp
  with s' have "shift s' ! 1 \<noteq> shift (initialize \<lparr>numcorrelators = 3, p = 4, m = 2\<rparr>) ! 1"
    by simp
  with add_touches_levels_from_k_up [OF _ _ s'] s' show ?thesis
    by simp
qed

subsection \<open>Returning, and the depth of the recursion\<close>

text \<open>
  \<^verbatim>\<open>add\<close> with a budget of nested calls: the outer \<open>None\<close> says that the budget was
  used up before the call returned, \<open>Some r\<close> that the call ended with the result \<open>r\<close>.
  Every recursive call costs one unit.
\<close>

fun add_fuel :: "nat \<Rightarrow> config \<Rightarrow> real \<Rightarrow> nat \<Rightarrow> correlator \<Rightarrow> correlator option option" where
  "add_fuel n c w k s =
     (if k = numcorrelators c then Some (Some s)
      else if numcorrelators c < k \<or> p c \<le> insertindex s ! k then Some None
      else if naccumulator (add_insert w k s) ! k = m c then
        (case n of
           0 \<Rightarrow> None
         | Suc n' \<Rightarrow>
             (case add_fuel n' c (accumulator (add_insert w k s) ! k / real (m c)) (k + 1)
                     (add_insert w k s) of
                None \<Rightarrow> None
              | Some None \<Rightarrow> Some None
              | Some (Some s') \<Rightarrow> Some (Some (add_advance c k (add_correlate c k (add_reset k s'))))))
      else Some (Some (add_advance c k (add_correlate c k (add_insert w k s)))))"

declare add_fuel.simps [simp del]

lemma add_fuel_enough:
  assumes "k \<le> numcorrelators c"
  shows "add_fuel (numcorrelators c - k) c w k s = Some (add c w k s)"
  using assms
proof (induction "numcorrelators c - k" arbitrary: w k s)
  case 0
  then show ?case
    by (simp add: add.simps [of c w k s] add_fuel.simps [of _ c w k s])
next
  case (Suc n)
  then have k: "k < numcorrelators c"
    by simp
  from Suc.hyps(2) have n: "n = numcorrelators c - (k + 1)"
    by simp
  from Suc.hyps(1) [OF n] k
  have "add_fuel n c w' (k + 1) s' = Some (add c w' (k + 1) s')" for w' s'
    by (simp add: n)
  with k Suc.hyps(2) [symmetric] show ?case
    by (simp add: add.simps [of c w k s] add_fuel.simps [of _ c w k s] split: option.splits)
qed

text \<open>
  Every call \<^verbatim>\<open>add(w, k)\<close> at a level up to \<^verbatim>\<open>numcorrelators\<close>, in a state whose
  insert indices lie inside the rows, returns a state. Each nested call is made one level
  higher, and \<open>numcorrelators - k\<close> nested calls are enough: with that budget the call
  ends with the same result, the whole cascade included.
\<close>

lemma add_terminates_within_depth:
  assumes "1 \<le> m c" and "k \<le> numcorrelators c"
    and "\<forall>j<numcorrelators c. insertindex s ! j < p c"
  shows "\<exists>s'. add c w k s = Some s' \<and> add_fuel (numcorrelators c - k) c w k s = Some (Some s')"
  using add_returns [OF assms(2,3)] add_fuel_enough [OF assms(2)] by fastforce

lemma add_terminates_within_depth_example:
  "\<exists>s'. add \<lparr>numcorrelators = 3, p = 4, m = 1\<rparr> 7 0 (initialize \<lparr>numcorrelators = 3, p = 4, m = 1\<rparr>) = Some s' \<and>
     add_fuel 3 \<lparr>numcorrelators = 3, p = 4, m = 1\<rparr> 7 0 (initialize \<lparr>numcorrelators = 3, p = 4, m = 1\<rparr>)
       = Some (Some s')"
  using add_terminates_within_depth [of "\<lparr>numcorrelators = 3, p = 4, m = 1\<rparr>" 0
      "initialize \<lparr>numcorrelators = 3, p = 4, m = 1\<rparr>" 7]
  by (simp add: initialize_def)

text \<open>
  C9. Not every call \<^verbatim>\<open>add(w, k)\<close> returns: the bound \<open>k \<le> numcorrelators\<close> above is needed.
  The guard of line 98 compares with \<^verbatim>\<open>==\<close>, so it ends the recursion that starts at a level
  up to \<^verbatim>\<open>numcorrelators\<close> and nothing else. With two levels, \<^verbatim>\<open>add(1, 2)\<close> returns at
  once; \<^verbatim>\<open>add(1, 3)\<close> passes the guard and line 102 writes \<^verbatim>\<open>shift[3][insertindex[3]]\<close>,
  outside every allocation, before any nested call is made: the call does not end with a
  state.
\<close>

theorem add_above_depth_does_not_return:
  "add \<lparr>numcorrelators = 2, p = 4, m = 2\<rparr> 1 2 (initialize \<lparr>numcorrelators = 2, p = 4, m = 2\<rparr>)
     = Some (initialize \<lparr>numcorrelators = 2, p = 4, m = 2\<rparr>) \<and>
   add \<lparr>numcorrelators = 2, p = 4, m = 2\<rparr> 1 3 (initialize \<lparr>numcorrelators = 2, p = 4, m = 2\<rparr>)
     = None \<and>
   add_fuel 0 \<lparr>numcorrelators = 2, p = 4, m = 2\<rparr> 1 3 (initialize \<lparr>numcorrelators = 2, p = 4, m = 2\<rparr>)
     = Some None"
  by (simp add: add.simps add_fuel.simps)

text \<open>
  C3. The guard of \<^verbatim>\<open>add\<close> drops a sample at level \<open>k = numcorrelators\<close> only. With one
  level, \<^verbatim>\<open>add(1, 1)\<close> returns the state it was given, while \<^verbatim>\<open>add(1, 2)\<close> passes the
  guard and indexes the arrays at a level that was never allocated.
\<close>

theorem add_beyond_depth_not_dropped:
  "add \<lparr>numcorrelators = 1, p = 4, m = 2\<rparr> 1 1 (initialize \<lparr>numcorrelators = 1, p = 4, m = 2\<rparr>)
     = Some (initialize \<lparr>numcorrelators = 1, p = 4, m = 2\<rparr>) \<and>
   add \<lparr>numcorrelators = 1, p = 4, m = 2\<rparr> 1 2 (initialize \<lparr>numcorrelators = 1, p = 4, m = 2\<rparr>)
     = None"
  by (simp add: add.simps)

subsection \<open>What evaluate writes\<close>

text \<open>One write of lines 162 to 164 (and 172 to 174): a pair goes to position \<^verbatim>\<open>im\<close>.\<close>

definition put :: "real \<times> real \<Rightarrow> correlator \<times> nat \<Rightarrow> correlator \<times> nat" where
  "put x out = (case out of (s, im) \<Rightarrow>
     (s \<lparr> t := (t s)[im := fst x], f := (f s)[im := snd x] \<rparr>, im + 1))"

text \<open>The pairs of one level, from the lag index \<open>lo\<close> on, in the order of the loop.\<close>

definition level_pairs :: "config \<Rightarrow> real \<Rightarrow> correlator \<Rightarrow> nat \<Rightarrow> nat \<Rightarrow> (real \<times> real) list" where
  "level_pairs c aux s k lo =
     map (\<lambda>i. (real i * real (m c) ^ k, correlation s ! k ! i / real (ncorrelation s ! k ! i) - aux))
       (filter (\<lambda>i. 0 < ncorrelation s ! k ! i) [lo..<p c])"

text \<open>The members that \<^verbatim>\<open>evaluate\<close> never writes: all but \<^verbatim>\<open>t\<close>, \<^verbatim>\<open>f\<close> and \<^verbatim>\<open>npcorr\<close>.\<close>

definition accumulated ::
  "correlator \<Rightarrow> real list list \<times> real list list \<times> nat list list \<times> real list \<times> nat list \<times> nat list \<times> nat \<times> real" where
  "accumulated s = (shift s, correlation s, ncorrelation s, accumulator s, naccumulator s,
     insertindex s, kmax s, accval s)"

lemma accumulated_put [simp]: "accumulated (fst (put x out)) = accumulated (fst out)"
  by (cases out) (simp add: put_def accumulated_def)

lemma accumulated_fold_put [simp]: "accumulated (fst (fold put xs out)) = accumulated (fst out)"
  by (induction xs arbitrary: out) simp_all

lemma level_pairs_cong: "accumulated s' = accumulated s \<Longrightarrow> level_pairs c aux s' k lo = level_pairs c aux s k lo"
  by (simp add: level_pairs_def accumulated_def)

lemma kmax_cong: "accumulated s' = accumulated s \<Longrightarrow> kmax s' = kmax s"
  by (simp add: accumulated_def)

lemma emit_put:
  "emit aux lag k i out =
     (if 0 < ncorrelation (fst out) ! k ! i
      then put (lag, correlation (fst out) ! k ! i / real (ncorrelation (fst out) ! k ! i) - aux) out
      else out)"
  by (cases out) (simp add: emit_def put_def)

lemma level_pairs_step:
  "i < p c \<Longrightarrow> level_pairs c aux s k i =
     (if 0 < ncorrelation s ! k ! i
      then [(real i * real (m c) ^ k, correlation s ! k ! i / real (ncorrelation s ! k ! i) - aux)]
      else []) @ level_pairs c aux s k (i + 1)"
  by (simp add: level_pairs_def upt_conv_Cons)

lemma level_pairs_done: "\<not> i < p c \<Longrightarrow> level_pairs c aux s k i = []"
  by (simp add: level_pairs_def)

lemma eval_lags_fold: "eval_lags c aux k i out = fold put (level_pairs c aux (fst out) k i) out"
proof (induction "p c - i" arbitrary: i out)
  case 0
  then show ?case
    by (subst eval_lags.simps) (simp add: level_pairs_done)
next
  case (Suc n)
  then have i: "i < p c" and n: "n = p c - (i + 1)"
    by simp_all
  have "accumulated (fst (emit aux (real i * real (m c) ^ k) k i out)) = accumulated (fst out)"
    by (simp add: emit_put)
  then have "level_pairs c aux (fst (emit aux (real i * real (m c) ^ k) k i out)) k (i + 1)
      = level_pairs c aux (fst out) k (i + 1)"
    by (rule level_pairs_cong)
  with Suc.hyps(1) [OF n, of "emit aux (real i * real (m c) ^ k) k i out"] i show ?case
    by (subst eval_lags.simps, subst level_pairs_step) (simp_all add: emit_put)
qed

lemma eval_first_fold: "eval_first c aux i out = fold put (level_pairs c aux (fst out) 0 i) out"
proof (induction "p c - i" arbitrary: i out)
  case 0
  then show ?case
    by (subst eval_first.simps) (simp add: level_pairs_done)
next
  case (Suc n)
  then have i: "i < p c" and n: "n = p c - (i + 1)"
    by simp_all
  have "accumulated (fst (emit aux (real i) 0 i out)) = accumulated (fst out)"
    by (simp add: emit_put)
  then have "level_pairs c aux (fst (emit aux (real i) 0 i out)) 0 (i + 1)
      = level_pairs c aux (fst out) 0 (i + 1)"
    by (rule level_pairs_cong)
  with Suc.hyps(1) [OF n, of "emit aux (real i) 0 i out"] i show ?case
    by (subst eval_first.simps, subst level_pairs_step) (simp_all add: emit_put)
qed

lemma eval_levels_fold:
  "eval_levels c aux k out =
     fold put (concat (map (\<lambda>l. level_pairs c aux (fst out) l (d_min c)) [k..<kmax (fst out)])) out"
proof (induction "kmax (fst out) - k" arbitrary: k out)
  case 0
  then show ?case
    by (subst eval_levels.simps) simp
next
  case (Suc n)
  define out' where "out' = eval_lags c aux k (d_min c) out"
  have s: "accumulated (fst out') = accumulated (fst out)"
    by (simp add: out'_def eval_lags_fold)
  from Suc.hyps(2) have k: "k < kmax (fst out)" and n: "n = kmax (fst out') - (k + 1)"
    by (simp_all add: kmax_cong [OF s])
  have "eval_levels c aux k out = eval_levels c aux (k + 1) out'"
    using k by (subst eval_levels.simps) (simp add: out'_def)
  also have "\<dots> = fold put (concat (map (\<lambda>l. level_pairs c aux (fst out') l (d_min c))
      [k + 1..<kmax (fst out')])) out'"
    by (rule Suc.hyps(1) [OF n])
  also have "\<dots> = fold put (concat (map (\<lambda>l. level_pairs c aux (fst out) l (d_min c))
      [k + 1..<kmax (fst out)])) out'"
    by (simp add: level_pairs_cong [OF s] kmax_cong [OF s])
  finally show ?case
    using k by (simp add: out'_def eval_lags_fold upt_conv_Cons)
qed


lemma fold_put_lists:
  assumes "im + length xs \<le> length (t s)" and "im + length xs \<le> length (f s)"
  shows "fold put xs (s, im) =
    (s \<lparr> t := take im (t s) @ map fst xs @ drop (im + length xs) (t s),
         f := take im (f s) @ map snd xs @ drop (im + length xs) (f s) \<rparr>,
     im + length xs)"
  using assms
proof (induction xs arbitrary: s im)
  case Nil
  then show ?case
    by simp
next
  case (Cons x xs)
  let ?s = "s \<lparr> t := (t s)[im := fst x], f := (f s)[im := snd x] \<rparr>"
  from Cons.prems have im: "im < length (t s)" "im < length (f s)"
    by simp_all
  have "fold put (x # xs) (s, im) = fold put xs (?s, im + 1)"
    by (simp add: put_def)
  also have "\<dots> = (?s \<lparr> t := take (im + 1) (t ?s) @ map fst xs @ drop (im + 1 + length xs) (t ?s),
      f := take (im + 1) (f ?s) @ map snd xs @ drop (im + 1 + length xs) (f ?s) \<rparr>,
      im + 1 + length xs)"
    using Cons.prems by (intro Cons.IH) simp_all
  finally have step: "fold put (x # xs) (s, im) =
      (?s \<lparr> t := take (im + 1) (t ?s) @ map fst xs @ drop (im + 1 + length xs) (t ?s),
      f := take (im + 1) (f ?s) @ map snd xs @ drop (im + 1 + length xs) (f ?s) \<rparr>,
      im + 1 + length xs)" .
  have "take (im + 1) (t ?s) = take im (t s) @ [fst x]"
    and "take (im + 1) (f ?s) = take im (f s) @ [snd x]"
    using im by (simp_all add: take_Suc_conv_app_nth)
  moreover have "drop (im + 1 + length xs) (t ?s) = drop (im + length (x # xs)) (t s)"
    and "drop (im + 1 + length xs) (f ?s) = drop (im + length (x # xs)) (f s)"
    by (simp_all add: drop_update_cancel)
  ultimately show ?case
    unfolding step by simp
qed

text \<open>
  The output as the specification words it: level 0 gives one pair for each lag index
  \<open>i\<close> in \<open>[0, p)\<close> with a positive count, at lag \<open>i\<close>; each level \<open>k\<close> in \<open>[1, kmax)\<close> gives
  one pair for each \<open>i\<close> in \<open>[d_min, p)\<close> with a positive count, at lag \<open>i * m^k\<close>; the value
  is the sum over the count, minus \<open>aux\<close>.
\<close>

definition emitted_pairs :: "config \<Rightarrow> bool \<Rightarrow> correlator \<Rightarrow> (real \<times> real) list" where
  "emitted_pairs c nrm s =
     (let aux = (if nrm then (accval s / real (ncorrelation s ! 0 ! 0))\<^sup>2 else 0) in
      map (\<lambda>i. (real i, correlation s ! 0 ! i / real (ncorrelation s ! 0 ! i) - aux))
        (filter (\<lambda>i. 0 < ncorrelation s ! 0 ! i) [0..<p c]) @
      concat (map (\<lambda>k.
        map (\<lambda>i. (real i * real (m c) ^ k, correlation s ! k ! i / real (ncorrelation s ! k ! i) - aux))
          (filter (\<lambda>i. 0 < ncorrelation s ! k ! i) [d_min c..<p c])) [1..<kmax s]))"

lemma emitted_pairs_level_pairs:
  "emitted_pairs c nrm s =
     level_pairs c (eval_aux nrm s) s 0 0 @
     concat (map (\<lambda>k. level_pairs c (eval_aux nrm s) s k (d_min c)) [1..<kmax s])"
  by (simp add: emitted_pairs_def level_pairs_def eval_aux_def power2_eq_square Let_def)

lemma emitted_pairs_cong:
  "accumulated s' = accumulated s \<Longrightarrow> emitted_pairs c nrm s' = emitted_pairs c nrm s"
  by (simp add: emitted_pairs_def accumulated_def)

lemma length_level_pairs: "length (level_pairs c aux s k lo) \<le> p c"
proof -
  have "length (level_pairs c aux s k lo) \<le> length [lo..<p c]"
    unfolding level_pairs_def length_map by (rule length_filter_le)
  then show ?thesis
    by simp
qed

lemma length_concat_bound:
  "(\<And>x. length (g x) \<le> b) \<Longrightarrow> length (concat (map g xs)) \<le> length xs * b"
proof (induction xs)
  case Nil
  then show ?case
    by simp
next
  case (Cons x xs)
  from Cons.IH [OF Cons.prems] Cons.prems [of x] show ?case
    by simp
qed

lemma length_emitted_pairs:
  assumes "1 \<le> numcorrelators c" and "kmax s \<le> numcorrelators c"
  shows "length (emitted_pairs c nrm s) \<le> length_out c"
proof -
  have "length (concat (map (\<lambda>k. level_pairs c (eval_aux nrm s) s k (d_min c)) [1..<kmax s]))
      \<le> length [1..<kmax s] * p c"
    by (rule length_concat_bound) (rule length_level_pairs)
  then have "length (emitted_pairs c nrm s) \<le> p c + (kmax s - 1) * p c"
    using length_level_pairs [of c "eval_aux nrm s" s 0 0]
    by (simp add: emitted_pairs_level_pairs)
  also have "\<dots> \<le> p c + (numcorrelators c - 1) * p c"
    using assms(2) by (simp add: diff_le_mono)
  also have "\<dots> = length_out c"
    using assms(1) by (cases "numcorrelators c") (simp_all add: length_out_def)
  finally show ?thesis .
qed

lemma evaluate_fold:
  assumes "1 \<le> numcorrelators c" and "1 \<le> p c" and "kmax s \<le> numcorrelators c"
  shows "evaluate c nrm s =
    Some (fst (fold put (emitted_pairs c nrm s) (s, 0))
      \<lparr> npcorr := snd (fold put (emitted_pairs c nrm s) (s, 0)) \<rparr>)"
proof -
  let ?aux = "eval_aux nrm s"
  define out where "out = fold put (level_pairs c ?aux s 0 0) (s, 0)"
  have a: "accumulated (fst out) = accumulated s"
    by (simp add: out_def)
  have "eval_levels c ?aux 1 (eval_first c ?aux 0 (s, 0))
      = fold put (concat (map (\<lambda>l. level_pairs c ?aux (fst out) l (d_min c)) [1..<kmax (fst out)])) out"
    by (simp add: eval_first_fold eval_levels_fold out_def)
  also have "\<dots> = fold put (concat (map (\<lambda>l. level_pairs c ?aux s l (d_min c)) [1..<kmax s])) out"
    by (simp only: level_pairs_cong [OF a] kmax_cong [OF a])
  also have "\<dots> = fold put (emitted_pairs c nrm s) (s, 0)"
    by (simp add: emitted_pairs_level_pairs out_def)
  finally show ?thesis
    using assms by (simp add: evaluate_def split: prod.splits)
qed

lemma evaluate_lists:
  assumes "allocated c s" and "1 \<le> numcorrelators c" and "1 \<le> p c"
    and "kmax s \<le> numcorrelators c"
  shows "evaluate c nrm s =
    Some (s \<lparr> t := map fst (emitted_pairs c nrm s) @ drop (length (emitted_pairs c nrm s)) (t s),
             f := map snd (emitted_pairs c nrm s) @ drop (length (emitted_pairs c nrm s)) (f s),
             npcorr := length (emitted_pairs c nrm s) \<rparr>)"
proof -
  from assms(1) have "length (t s) = length_out c" and "length (f s) = length_out c"
    by (simp_all add: allocated_def)
  with length_emitted_pairs [OF assms(2,4), of nrm]
  have "0 + length (emitted_pairs c nrm s) \<le> length (t s)"
    and "0 + length (emitted_pairs c nrm s) \<le> length (f s)"
    by simp_all
  from fold_put_lists [OF this] show ?thesis
    by (simp add: evaluate_fold [OF assms(2-4)])
qed

text \<open>
  C1. On an engine with at least one level and one lag bin, whose arrays have the allocated
  sizes and whose \<^verbatim>\<open>kmax\<close> is at most \<^verbatim>\<open>numcorrelators\<close>, \<^verbatim>\<open>evaluate(norm)\<close> returns,
  \<^verbatim>\<open>npcorr\<close> is the number of pairs the specification lists, and the first \<^verbatim>\<open>npcorr\<close>
  entries of \<^verbatim>\<open>t\<close> and \<^verbatim>\<open>f\<close> are exactly those pairs, in that order.
\<close>

theorem evaluate_emits_listed_pairs:
  assumes "allocated c s" and "1 \<le> numcorrelators c" and "1 \<le> p c"
    and "kmax s \<le> numcorrelators c"
  shows "\<exists>s'. evaluate c nrm s = Some s' \<and>
    npcorr s' = length (emitted_pairs c nrm s) \<and>
    take (npcorr s') (zip (t s') (f s')) = emitted_pairs c nrm s"
  by (simp add: evaluate_lists [OF assms] zip_map_fst_snd)

theorem evaluate_emits_listed_pairs_witness:
  "\<exists>s'. evaluate \<lparr>numcorrelators = 3, p = 4, m = 2\<rparr> True
        (the (add_all \<lparr>numcorrelators = 3, p = 4, m = 2\<rparr> [1, 2, 3, 4, 5, 6, 7, 8, 9, 10, 11, 12]
           (initialize \<lparr>numcorrelators = 3, p = 4, m = 2\<rparr>))) = Some s' \<and>
     npcorr s' = 6 \<and>
     take (npcorr s') (zip (t s') (f s')) =
       [(0, 143 / 12), (1, 39 / 4), (2, 29 / 4), (3, 53 / 12), (4, 1), (6, - (19 / 3))]"
proof -
  define c where "c = \<lparr>numcorrelators = 3, p = 4, m = 2\<rparr>"
  define s where "s = the (add_all c [1, 2, 3, 4, 5, 6, 7, 8, 9, 10, 11, 12] (initialize c))"
  have "allocated c s"
    unfolding c_def s_def by code_simp
  moreover have "kmax s \<le> numcorrelators c"
    unfolding c_def s_def by code_simp
  moreover have "emitted_pairs c True s =
      [(0, 143 / 12), (1, 39 / 4), (2, 29 / 4), (3, 53 / 12), (4, 1), (6, - (19 / 3))]"
    unfolding c_def s_def by code_simp
  moreover have "1 \<le> numcorrelators c" and "1 \<le> p c"
    by (simp_all add: c_def)
  ultimately have "\<exists>s'. evaluate c True s = Some s' \<and> npcorr s' = 6 \<and>
      take (npcorr s') (zip (t s') (f s')) =
        [(0, 143 / 12), (1, 39 / 4), (2, 29 / 4), (3, 53 / 12), (4, 1), (6, - (19 / 3))]"
    using evaluate_emits_listed_pairs [of c s True] by (simp add: numeral_eq_Suc)
  then show ?thesis
    unfolding c_def s_def .
qed

lemma accumulated_evaluate:
  assumes "evaluate c nrm s = Some s'"
  shows "accumulated s' = accumulated s"
proof -
  from assms have "1 \<le> numcorrelators c" and "1 \<le> p c" and "kmax s \<le> numcorrelators c"
    by (auto simp: evaluate_def split: if_splits)
  from evaluate_fold [OF this, of nrm] assms
  have "accumulated s' = accumulated (fst (fold put (emitted_pairs c nrm s) (s, 0)))"
    by (auto simp: accumulated_def)
  then show ?thesis
    by simp
qed

text \<open>
  C7. On an engine with at least one level and one lag bin, whose arrays have the allocated
  sizes and whose \<^verbatim>\<open>kmax\<close> is at most \<^verbatim>\<open>numcorrelators\<close>, \<^verbatim>\<open>evaluate(norm)\<close> returns a
  state in which \<^verbatim>\<open>shift\<close>, \<^verbatim>\<open>correlation\<close>, \<^verbatim>\<open>ncorrelation\<close>, \<^verbatim>\<open>accumulator\<close>,
  \<^verbatim>\<open>naccumulator\<close>, \<^verbatim>\<open>insertindex\<close>, \<^verbatim>\<open>kmax\<close> and \<^verbatim>\<open>accval\<close> are as before; a second
  \<^verbatim>\<open>evaluate(norm)\<close> right after it returns that same state, so \<^verbatim>\<open>t\<close>, \<^verbatim>\<open>f\<close> and
  \<^verbatim>\<open>npcorr\<close> are identical.
\<close>

theorem evaluate_reads_only_and_repeats:
  assumes "allocated c s" and "1 \<le> numcorrelators c" and "1 \<le> p c"
    and "kmax s \<le> numcorrelators c"
  shows "\<exists>s'. evaluate c nrm s = Some s' \<and>
    shift s' = shift s \<and> correlation s' = correlation s \<and> ncorrelation s' = ncorrelation s \<and>
    accumulator s' = accumulator s \<and> naccumulator s' = naccumulator s \<and>
    insertindex s' = insertindex s \<and> kmax s' = kmax s \<and> accval s' = accval s \<and>
    evaluate c nrm s' = Some s'"
proof -
  let ?ps = "emitted_pairs c nrm s"
  define s' where "s' = s \<lparr> t := map fst ?ps @ drop (length ?ps) (t s),
    f := map snd ?ps @ drop (length ?ps) (f s), npcorr := length ?ps \<rparr>"
  have first: "evaluate c nrm s = Some s'"
    by (simp add: evaluate_lists [OF assms] s'_def)
  have same: "accumulated s' = accumulated s"
    by (rule accumulated_evaluate [OF first])
  have len: "length ?ps \<le> length (t s)" "length ?ps \<le> length (f s)"
    using length_emitted_pairs [OF assms(2,4), of nrm] assms(1) by (simp_all add: allocated_def)
  then have "allocated c s'"
    using assms(1) by (simp add: allocated_def s'_def)
  moreover have "kmax s' \<le> numcorrelators c"
    using assms(4) by (simp add: s'_def)
  ultimately have "evaluate c nrm s' =
    Some (s' \<lparr> t := map fst (emitted_pairs c nrm s') @ drop (length (emitted_pairs c nrm s')) (t s'),
      f := map snd (emitted_pairs c nrm s') @ drop (length (emitted_pairs c nrm s')) (f s'),
      npcorr := length (emitted_pairs c nrm s') \<rparr>)"
    using assms(2,3) by (intro evaluate_lists)
  also have "emitted_pairs c nrm s' = ?ps"
    by (rule emitted_pairs_cong [OF same])
  finally have "evaluate c nrm s' = Some s'"
    by (simp add: s'_def)
  with first same show ?thesis
    by (auto simp: accumulated_def)
qed

theorem evaluate_reads_only_and_repeats_witness:
  "\<exists>s'. evaluate \<lparr>numcorrelators = 2, p = 4, m = 2\<rparr> True
        (the (add_all \<lparr>numcorrelators = 2, p = 4, m = 2\<rparr> [1, 2, 3, 4, 5] (initialize \<lparr>numcorrelators = 2, p = 4, m = 2\<rparr>)))
        = Some s' \<and>
     accval s' = 15 \<and> kmax s' = 1 \<and> insertindex s' = [1, 2] \<and> naccumulator s' = [1, 0] \<and>
     evaluate \<lparr>numcorrelators = 2, p = 4, m = 2\<rparr> True s' = Some s'"
proof -
  define c where "c = \<lparr>numcorrelators = 2, p = 4, m = 2\<rparr>"
  define s where "s = the (add_all c [1, 2, 3, 4, 5] (initialize c))"
  have "allocated c s" and "kmax s \<le> numcorrelators c"
    unfolding c_def s_def by code_simp+
  moreover have "1 \<le> numcorrelators c" and "1 \<le> p c"
    by (simp_all add: c_def)
  moreover have "accval s = 15" and "kmax s = 1" and "insertindex s = [1, 2]" and "naccumulator s = [1, 0]"
    unfolding c_def s_def by code_simp+
  ultimately have "\<exists>s'. evaluate c True s = Some s' \<and>
      accval s' = 15 \<and> kmax s' = 1 \<and> insertindex s' = [1, 2] \<and> naccumulator s' = [1, 0] \<and>
      evaluate c True s' = Some s'"
    using evaluate_reads_only_and_repeats [of c s True] by auto
  then show ?thesis
    unfolding c_def s_def .
qed

subsection \<open>Sizes and index ranges\<close>

text \<open>The sizes of all arrays of a state.\<close>

definition shape ::
  "correlator \<Rightarrow> nat list \<times> nat list \<times> nat list \<times> nat \<times> nat \<times> nat \<times> nat \<times> nat" where
  "shape s = (map length (shift s), map length (correlation s), map length (ncorrelation s),
     length (accumulator s), length (naccumulator s), length (insertindex s),
     length (t s), length (f s))"

lemma map_length_replicate:
  "map length xs = replicate n v \<longleftrightarrow> length xs = n \<and> list_all (\<lambda>row. length row = v) xs"
proof (induction xs arbitrary: n)
  case Nil
  then show ?case
    by auto
next
  case (Cons x xs)
  then show ?case
    by (cases n) auto
qed

lemma allocated_shape: "allocated c s \<longleftrightarrow> shape s = shape (initialize c)"
  by (auto simp: allocated_def shape_def initialize_def map_length_replicate map_replicate_const)

lemma map_length_update_row: "map length (xs[k := (xs ! k)[i := v]]) = map length xs"
proof (cases "k < length xs")
  case True
  then have "(map length xs)[k := length (xs ! k)] = map length xs"
    by (metis length_map list_update_id nth_map)
  then show ?thesis
    by (simp add: map_update)
next
  case False
  then have "length xs \<le> k"
    by simp
  then show ?thesis
    by (simp add: list_update_beyond)
qed

lemma shape_add_insert [simp]: "shape (add_insert w k s) = shape s"
  by (simp add: shape_def add_insert_def map_length_update_row)

lemma shape_add_reset [simp]: "shape (add_reset k s) = shape s"
  by (simp add: shape_def add_reset_def)

lemma shape_corr_step [simp]: "shape (corr_step k ind1 j i s) = shape s"
  by (simp add: shape_def corr_step_def map_length_update_row)

lemma shape_add_finish [simp]: "shape (add_finish c k s) = shape s"
proof -
  have "shape (add_correlate c k s) = shape s"
    by (rule add_correlate_any) simp_all
  then show ?thesis
    by (simp add: add_finish_def add_advance_def shape_def)
qed

lemma shape_add: "add c w k s = Some s' \<Longrightarrow> shape s' = shape s"
  by (induction rule: add_Some_induct) simp_all

lemma allocated_add: "add c w k s = Some s' \<Longrightarrow> allocated c s \<Longrightarrow> allocated c s'"
  by (simp add: allocated_shape shape_add)

lemma fold_put_lengths:
  "length (t (fst (fold put xs out))) = length (t (fst out)) \<and>
   length (f (fst (fold put xs out))) = length (f (fst out))"
proof (induction xs arbitrary: out)
  case Nil
  then show ?case
    by simp
next
  case (Cons x xs)
  then show ?case
    by (cases out) (simp add: put_def)
qed

lemma evaluate_guard:
  "evaluate c nrm s = Some s' \<Longrightarrow> 1 \<le> numcorrelators c \<and> 1 \<le> p c \<and> kmax s \<le> numcorrelators c"
  by (auto simp: evaluate_def split: if_splits)

lemma shape_evaluate:
  assumes "evaluate c nrm s = Some s'"
  shows "shape s' = shape s"
proof -
  from evaluate_guard [OF assms]
  have "evaluate c nrm s = Some (fst (fold put (emitted_pairs c nrm s) (s, 0))
      \<lparr> npcorr := snd (fold put (emitted_pairs c nrm s) (s, 0)) \<rparr>)"
    by (intro evaluate_fold) simp_all
  with assms have "length (t s') = length (t s)" and "length (f s') = length (f s)"
    using fold_put_lengths [of "emitted_pairs c nrm s" "(s, 0)"] by auto
  with accumulated_evaluate [OF assms] show ?thesis
    by (simp add: shape_def accumulated_def)
qed

lemma allocated_evaluate: "evaluate c nrm s = Some s' \<Longrightarrow> allocated c s \<Longrightarrow> allocated c s'"
  by (simp add: allocated_shape shape_evaluate)

lemma allocated_initialize [simp]: "allocated c (initialize c)"
  by (simp add: allocated_shape)

lemma kmax_add_insert: "k < n \<Longrightarrow> kmax s \<le> n \<Longrightarrow> kmax (add_insert w k s) \<le> n"
  by (simp add: add_insert_def)

lemma kmax_add_reset [simp]: "kmax (add_reset k s) = kmax s"
  by (simp add: add_reset_def)

lemma kmax_add_finish [simp]: "kmax (add_finish c k s) = kmax s"
  by (simp add: add_finish_def add_advance_def)

lemma kmax_add:
  "add c w k s = Some s' \<Longrightarrow> kmax s \<le> numcorrelators c \<longrightarrow> kmax s' \<le> numcorrelators c"
  by (induction rule: add_Some_induct) (simp_all add: kmax_add_insert)

text \<open>The ranges of the insert index and of the accumulator count, at one level.\<close>

definition in_range :: "config \<Rightarrow> correlator \<Rightarrow> nat \<Rightarrow> bool" where
  "in_range c s k \<longleftrightarrow> insertindex s ! k < p c \<and> naccumulator s ! k < m c"

lemma add_in_range:
  assumes "add c w k s = Some s'" and "1 \<le> m c"
  shows "length (naccumulator s) = numcorrelators c \<and> length (insertindex s) = numcorrelators c
    \<longrightarrow> (\<forall>j<numcorrelators c.
          (insertindex s ! j < p c \<longrightarrow> insertindex s' ! j < p c) \<and>
          (naccumulator s ! j < m c \<longrightarrow> naccumulator s' ! j < m c))"
  using assms(1)
proof (induction rule: add_Some_induct)
  case (drop w s)
  show ?case
    by simp
next
  case (plain w k s)
  then show ?case
    by (auto simp: add_finish_def add_advance_def add_insert_def nth_list_update)
next
  case (cascade w k s u)
  let ?s = "add_insert w k s"
  show ?case
  proof (intro impI allI conjI)
    fix j
    assume len: "length (naccumulator s) = numcorrelators c \<and> length (insertindex s) = numcorrelators c"
      and j: "j < numcorrelators c"
    from len have len1: "length (naccumulator ?s) = numcorrelators c \<and> length (insertindex ?s) = numcorrelators c"
      by (simp add: add_insert_def)
    from shape_add [OF cascade(4)] len1 have lenu: "length (naccumulator u) = numcorrelators c"
        "length (insertindex u) = numcorrelators c"
      by (simp_all add: shape_def)
    from cascade(5) len1 j
    have ih: "insertindex ?s ! j < p c \<longrightarrow> insertindex u ! j < p c"
        "naccumulator ?s ! j < m c \<longrightarrow> naccumulator u ! j < m c"
      by simp_all
    {
      assume "insertindex s ! j < p c"
      with ih(1) have "insertindex u ! j < p c"
        by simp
      moreover from cascade(2) ih(1) [unfolded insertindex_add_insert] have "j = k \<Longrightarrow> insertindex u ! k < p c"
        by simp
      ultimately show "insertindex (add_finish c k (add_reset k u)) ! j < p c"
        using lenu j cascade(1) by (auto simp: add_finish_def add_advance_def add_reset_def nth_list_update)
    }
    {
      assume "naccumulator s ! j < m c"
      then have "j \<noteq> k \<Longrightarrow> naccumulator ?s ! j < m c"
        by (simp add: add_insert_def)
      with ih(2) have "j \<noteq> k \<Longrightarrow> naccumulator u ! j < m c"
        by simp
      then show "naccumulator (add_finish c k (add_reset k u)) ! j < m c"
        using lenu j cascade(1) assms(2) by (auto simp: add_finish_def add_advance_def add_reset_def nth_list_update)
    }
  qed
qed


text \<open>The operations a caller has, and a sequence of them run on an engine.\<close>

datatype call = Add real nat | Evaluate bool

fun run :: "config \<Rightarrow> call list \<Rightarrow> correlator \<Rightarrow> correlator option" where
  "run c [] s = Some s"
| "run c (Add w k # calls) s = (case add c w k s of None \<Rightarrow> None | Some s' \<Rightarrow> run c calls s')"
| "run c (Evaluate nrm # calls) s =
     (case evaluate c nrm s of None \<Rightarrow> None | Some s' \<Rightarrow> run c calls s')"

lemma in_range_initialize: "1 \<le> p c \<Longrightarrow> 1 \<le> m c \<Longrightarrow> k < numcorrelators c \<Longrightarrow> in_range c (initialize c) k"
  by (simp add: in_range_def initialize_def)

lemma in_range_add:
  assumes "add c w k s = Some s'" and "1 \<le> m c" and "allocated c s"
    and "\<forall>j<numcorrelators c. in_range c s j"
  shows "\<forall>j<numcorrelators c. in_range c s' j"
  using add_in_range [OF assms(1,2)] assms(3,4) by (simp add: allocated_def in_range_def)

lemma in_range_evaluate:
  assumes "evaluate c nrm s = Some s'"
  shows "in_range c s' j = in_range c s j"
  using accumulated_evaluate [OF assms] by (simp add: in_range_def accumulated_def)

lemma run_in_range:
  assumes "1 \<le> m c"
  shows "run c calls s = Some s' \<Longrightarrow> allocated c s \<Longrightarrow> \<forall>j<numcorrelators c. in_range c s j
    \<Longrightarrow> \<forall>j<numcorrelators c. in_range c s' j"
proof (induction calls arbitrary: s)
  case Nil
  then show ?case
    by simp
next
  case (Cons x calls)
  show ?case
  proof (cases x)
    case (Add w k)
    with Cons.prems(1) obtain u where u: "add c w k s = Some u" and r: "run c calls u = Some s'"
      by (auto split: option.splits)
    from Cons.IH [OF r allocated_add [OF u Cons.prems(2)]
        in_range_add [OF u assms Cons.prems(2,3)]]
    show ?thesis .
  next
    case (Evaluate nrm)
    with Cons.prems(1) obtain u where u: "evaluate c nrm s = Some u" and r: "run c calls u = Some s'"
      by (auto split: option.splits)
    from Cons.prems(3) have "\<forall>j<numcorrelators c. in_range c u j"
      by (simp add: in_range_evaluate [OF u])
    from Cons.IH [OF r allocated_evaluate [OF u Cons.prems(2)] this]
    show ?thesis .
  qed
qed

text \<open>
  C8. With \<open>p \<ge> 1\<close> and \<open>m \<ge> 1\<close>, whatever sequence of \<^verbatim>\<open>add\<close> (at any level) and
  \<^verbatim>\<open>evaluate\<close> calls is run from the state that \<^verbatim>\<open>initialize\<close> establishes, the state
  it ends in has \<open>insertindex[k] < p\<close> and \<open>naccumulator[k] < m\<close> at every level \<open>k\<close>.
\<close>

theorem operations_keep_index_ranges:
  assumes "1 \<le> p c" and "1 \<le> m c" and "run c calls (initialize c) = Some s"
  shows "\<forall>k<numcorrelators c. insertindex s ! k < p c \<and> naccumulator s ! k < m c"
  using run_in_range [OF assms(2,3)] in_range_initialize [OF assms(1,2)]
  by (simp add: in_range_def)

theorem operations_keep_index_ranges_witness:
  "\<exists>s. run \<lparr>numcorrelators = 2, p = 2, m = 2\<rparr>
         [Add 1 0, Add 2 0, Evaluate True, Add 3 1, Add 4 0, Add 5 2, Evaluate False, Add 6 0]
         (initialize \<lparr>numcorrelators = 2, p = 2, m = 2\<rparr>) = Some s \<and>
     insertindex s ! 0 < 2 \<and> naccumulator s ! 0 < 2 \<and>
     insertindex s ! 1 < 2 \<and> naccumulator s ! 1 < 2"
proof -
  define c where "c = \<lparr>numcorrelators = 2, p = 2, m = 2\<rparr>"
  define calls where "calls =
    [Add 1 0, Add 2 0, Evaluate True, Add 3 1, Add 4 0, Add 5 2, Evaluate False, Add 6 0]"
  have "run c calls (initialize c) \<noteq> None"
    unfolding c_def calls_def by code_simp
  then obtain s where s: "run c calls (initialize c) = Some s"
    by auto
  have "1 \<le> p c" and "1 \<le> m c"
    by (simp_all add: c_def)
  from operations_keep_index_ranges [OF this s]
  have "insertindex s ! 0 < 2 \<and> naccumulator s ! 0 < 2 \<and>
      insertindex s ! 1 < 2 \<and> naccumulator s ! 1 < 2"
    by (simp add: c_def)
  with s show ?thesis
    unfolding c_def calls_def by blast
qed

subsection \<open>A constant signal\<close>

text \<open>
  What holds at one level while the same value \<open>v\<close> is fed: the accumulator is its count
  times \<open>v\<close>, every slot is unfilled or holds \<open>v\<close>, every sum is its count times \<open>v\<^sup>2\<close>, and
  nothing is counted when \<open>v\<close> itself fails the test of line 121.
\<close>

definition const_level :: "config \<Rightarrow> real \<Rightarrow> correlator \<Rightarrow> nat \<Rightarrow> bool" where
  "const_level c v s k \<longleftrightarrow>
     accumulator s ! k = real (naccumulator s ! k) * v \<and>
     (\<forall>i<p c. (shift s ! k ! i = - 20000000000 \<or> shift s ! k ! i = v) \<and>
        correlation s ! k ! i = real (ncorrelation s ! k ! i) * (v * v) \<and>
        (v \<le> - 10000000000 \<longrightarrow> ncorrelation s ! k ! i = 0))"

lemma const_level_cong: "level s' k = level s k \<Longrightarrow> const_level c v s' k = const_level c v s k"
  by (simp add: level_def const_level_def)

lemma const_level_initialize: "k < numcorrelators c \<Longrightarrow> const_level c v (initialize c) k"
  by (simp add: const_level_def initialize_def)

lemma allocated_lengths:
  assumes "allocated c s" and "k < numcorrelators c"
  shows "k < length (shift s)" "k < length (correlation s)" "k < length (ncorrelation s)"
    "k < length (accumulator s)" "k < length (naccumulator s)" "k < length (insertindex s)"
    "length (shift s ! k) = p c" "length (correlation s ! k) = p c"
    "length (ncorrelation s ! k) = p c"
  using assms by (simp_all add: allocated_def list_all_length)

lemma nth_update_any: "xs[a := v] ! i = (if a = i \<and> a < length xs then v else xs ! i)"
  by (cases "a < length xs") (auto simp: nth_list_update list_update_beyond not_less)

lemma const_level_add_insert:
  assumes "allocated c s" and "k < numcorrelators c" and "const_level c v s k"
  shows "const_level c v (add_insert v k s) k"
  using assms(3) allocated_lengths [OF assms(1,2)]
  by (auto simp: const_level_def add_insert_def nth_update_any algebra_simps)

lemma shift_add_insert:
  assumes "allocated c s" and "k < numcorrelators c" and "insertindex s ! k < p c"
  shows "shift (add_insert v k s) ! k ! (insertindex s ! k) = v"
  using assms(3) allocated_lengths [OF assms(1,2)] by (simp add: add_insert_def)

lemma const_level_add_reset:
  assumes "allocated c s" and "k < numcorrelators c" and "const_level c v s k"
  shows "const_level c v (add_reset k s) k"
  using assms(3) allocated_lengths [OF assms(1,2)]
  by (simp add: const_level_def add_reset_def)

lemma const_level_corr_step:
  assumes "allocated c s" and "k < numcorrelators c" and "const_level c v s k"
    and "shift s ! k ! ind1 = v" and "j < p c" and "i < p c"
  shows "const_level c v (corr_step k ind1 j i s) k"
proof (cases "shift s ! k ! i > - 10000000000")
  case False
  with assms(3) show ?thesis
    by (simp add: corr_step_def)
next
  case True
  with assms(3,6) have v: "shift s ! k ! i = v" and big: "\<not> v \<le> - 10000000000"
    by (auto simp: const_level_def)
  show ?thesis
    using assms(3,4,5) True v big allocated_lengths [OF assms(1,2)]
    by (auto simp: const_level_def corr_step_def nth_list_update algebra_simps)
qed

lemma const_level_add_finish:
  assumes "allocated c s" and "k < numcorrelators c" and "const_level c v s k"
    and "shift s ! k ! (insertindex s ! k) = v" and "insertindex s ! k < p c"
  shows "const_level c v (add_finish c k s) k"
proof -
  let ?P = "\<lambda>s'. shape s' = shape s \<and> shift s' = shift s \<and> const_level c v s' k"
  have "?P (add_correlate c k s)"
  proof (rule add_correlate_rule [of ?P, OF _ assms(5)])
    show "?P s"
      using assms(3) by simp
  next
    fix j i s'
    assume "j < p c" and "i < p c" and P: "?P s'"
    from P assms(1) have "allocated c s'"
      by (simp add: allocated_shape)
    from const_level_corr_step [OF this assms(2) _ _ \<open>j < p c\<close> \<open>i < p c\<close>, of v "insertindex s ! k"]
      P assms(4)
    show "?P (corr_step k (insertindex s ! k) j i s')"
      by simp
  qed
  then have "const_level c v (add_correlate c k s) k"
    by simp
  then show ?thesis
    by (simp add: const_level_def add_finish_def add_advance_def)
qed


lemma add_const_level:
  assumes "add c w k s = Some s'"
  shows "w = v \<and> allocated c s \<and> (\<forall>j<numcorrelators c. const_level c v s j)
    \<longrightarrow> (\<forall>j<numcorrelators c. const_level c v s' j)"
  using assms
proof (induction rule: add_Some_induct)
  case (drop w s)
  show ?case
    by simp
next
  case (plain w k s)
  show ?case
  proof (intro impI allI)
    fix j
    assume a: "w = v \<and> allocated c s \<and> (\<forall>j<numcorrelators c. const_level c v s j)"
      and j: "j < numcorrelators c"
    let ?s = "add_insert v k s"
    from a have al: "allocated c ?s"
      by (simp add: allocated_shape)
    show "const_level c v (add_finish c k (add_insert w k s)) j"
    proof (cases "j = k")
      case True
      from a plain(1) have "const_level c v ?s k"
        by (simp add: const_level_add_insert)
      moreover from a plain(1,2) have "shift ?s ! k ! (insertindex ?s ! k) = v"
        using shift_add_insert [of c s k v] by simp
      ultimately show ?thesis
        using a True plain(1,2) al by (simp add: const_level_add_finish)
    next
      case False
      with a j show ?thesis
        by (simp add: const_level_cong [OF level_add_finish] const_level_cong [OF level_add_insert])
    qed
  qed
next
  case (cascade w k s u)
  show ?case
  proof (intro impI allI)
    fix j
    assume a: "w = v \<and> allocated c s \<and> (\<forall>j<numcorrelators c. const_level c v s j)"
      and j: "j < numcorrelators c"
    let ?s = "add_insert v k s"
    from a have al: "allocated c ?s"
      by (simp add: allocated_shape)
    from a cascade(4) have u: "add c (accumulator ?s ! k / real (m c)) (k + 1) ?s = Some u"
      by simp
    from a cascade(1) have ck: "const_level c v ?s k"
      by (simp add: const_level_add_insert)
    have all: "\<forall>j<numcorrelators c. const_level c v ?s j"
    proof (intro allI impI)
      fix i
      assume "i < numcorrelators c"
      with a ck show "const_level c v ?s i"
        by (cases "i = k") (simp_all add: const_level_cong [OF level_add_insert])
    qed
    from a cascade(3) have "naccumulator ?s ! k = m c" and "0 < m c"
      using allocated_lengths [of c s k] cascade(1) by (auto simp: add_insert_def)
    with ck have "accumulator ?s ! k / real (m c) = v"
      by (simp add: const_level_def)
    with cascade(5) a al all have cu: "\<forall>j<numcorrelators c. const_level c v u j"
      by simp
    from allocated_add [OF u al] have alu: "allocated c u" .
    then have alr: "allocated c (add_reset k u)"
      by (simp add: allocated_shape)
    from add_level_below [OF u] have lev: "level u k = level ?s k"
      by simp
    show "const_level c v (add_finish c k (add_reset k u)) j"
    proof (cases "j = k")
      case True
      from cu cascade(1) alu have "const_level c v (add_reset k u) k"
        by (simp add: const_level_add_reset)
      moreover from lev a cascade(1,2) have "shift (add_reset k u) ! k ! (insertindex (add_reset k u) ! k) = v"
        using shift_add_insert [of c s k v] by (simp add: level_def add_reset_def)
      moreover from lev cascade(2) have "insertindex (add_reset k u) ! k < p c"
        by (simp add: level_def add_reset_def)
      ultimately show ?thesis
        using True cascade(1) alr by (simp add: const_level_add_finish)
    next
      case False
      with cu j show ?thesis
        by (simp add: const_level_cong [OF level_add_finish] const_level_cong [OF level_add_reset])
    qed
  qed
qed

lemma corr_first_from:
  assumes "P s" and step: "\<And>l i s. j \<le> l \<Longrightarrow> P s \<Longrightarrow> P (corr_step k ind1 l i s)"
  shows "P (corr_first c k ind1 j ind2 s)"
  using assms
proof (induction "p c - j" arbitrary: j ind2 s)
  case 0
  then show ?case
    by (subst corr_first.simps) simp
next
  case (Suc n)
  from Suc.hyps(2) have n: "n = p c - (j + 1)" and j: "j < p c"
    by simp_all
  have "P (corr_first c k ind1 (j + 1) ind2' (corr_step k ind1 j i s))" for ind2' i
  proof (rule Suc.hyps(1) [OF n])
    show "P (corr_step k ind1 j i s)"
      by (rule Suc.prems(2) [OF le_refl Suc.prems(1)])
  next
    fix l i' s'
    assume "j + 1 \<le> l" and "P s'"
    then show "P (corr_step k ind1 l i' s')"
      by (intro Suc.prems(2)) simp_all
  qed
  with j show ?case
    by (subst corr_first.simps) simp
qed

text \<open>At level 0 the lag-0 product is that of the new sample with itself.\<close>

lemma ncorrelation_lag0:
  assumes "allocated c s" and "1 \<le> numcorrelators c" and "insertindex s ! 0 < p c"
    and "shift s ! 0 ! (insertindex s ! 0) > - 10000000000"
  shows "ncorrelation (add_correlate c 0 s) ! 0 ! 0 = ncorrelation s ! 0 ! 0 + 1"
proof -
  let ?i = "insertindex s ! 0"
  let ?s = "corr_step 0 ?i 0 ?i s"
  from assms(1,2) have len: "0 < length (ncorrelation s)" "length (ncorrelation s ! 0) = p c"
    using allocated_lengths [of c s 0] by simp_all
  from assms(3) have p: "0 < p c"
    by simp
  have first: "ncorrelation ?s ! 0 ! 0 = ncorrelation s ! 0 ! 0 + 1"
    using assms(4) len p by (simp add: corr_step_def)
  have "ncorrelation (corr_first c 0 ?i 1 ind2 ?s) ! 0 ! 0 = ncorrelation s ! 0 ! 0 + 1" for ind2
  proof (rule corr_first_from [where P = "\<lambda>s'. ncorrelation s' ! 0 ! 0 = ncorrelation s ! 0 ! 0 + 1"])
    show "ncorrelation ?s ! 0 ! 0 = ncorrelation s ! 0 ! 0 + 1"
      by (rule first)
  next
    fix l i :: nat and s' :: correlator
    assume "1 \<le> l" and "ncorrelation s' ! 0 ! 0 = ncorrelation s ! 0 ! 0 + 1"
    then show "ncorrelation (corr_step 0 ?i l i s') ! 0 ! 0 = ncorrelation s ! 0 ! 0 + 1"
      by (auto simp: corr_step_def nth_update_any)
  qed
  with p show ?thesis
    by (simp add: add_correlate_def Let_def corr_first.simps [of c 0 ?i 0])
qed

lemma add_level0_counts:
  assumes "add c v 0 s = Some s'" and "allocated c s" and "1 \<le> numcorrelators c"
  shows "accval s' = accval s + v \<and>
    (v > - 10000000000 \<longrightarrow> ncorrelation s' ! 0 ! 0 = ncorrelation s ! 0 ! 0 + 1)"
proof -
  let ?s = "add_insert v 0 s"
  from assms(1,3) have ins: "insertindex s ! 0 < p c"
    by (auto simp: add.simps [of c v 0 s] split: if_splits)
  have al: "allocated c ?s"
    using assms(2) by (simp add: allocated_shape)
  have sh: "shift ?s ! 0 ! (insertindex ?s ! 0) = v"
    using shift_add_insert [OF assms(2), of 0 v] assms(3) ins by simp
  have acc: "accval ?s = accval s + v"
    by (simp add: add_insert_def)
  show ?thesis
  proof (cases "naccumulator ?s ! 0 = m c")
    case False
    with assms(1,3) ins have s': "s' = add_finish c 0 ?s"
      by (simp add: add.simps [of c v 0 s] add_finish_def)
    have "ncorrelation ?s = ncorrelation s"
      by (simp add: add_insert_def)
    with ncorrelation_lag0 [OF al assms(3)] ins sh acc show ?thesis
      by (simp add: s' add_finish_def add_advance_def)
  next
    case True
    with assms(1,3) ins obtain u
      where u: "add c (accumulator ?s ! 0 / real (m c)) (0 + 1) ?s = Some u"
        and s': "s' = add_finish c 0 (add_reset 0 u)"
      by (auto simp: add.simps [of c v 0 s] add_finish_def split: option.splits)
    let ?u = "add_reset 0 u"
    from add_level_below [OF u] have lev: "level u 0 = level ?s 0"
      by simp
    from add_accval [OF u] acc have accu: "accval u = accval s + v"
      by simp
    from allocated_add [OF u al] have "allocated c ?u"
      by (simp add: allocated_shape)
    moreover from lev ins have "insertindex ?u ! 0 < p c"
      by (simp add: level_def add_reset_def)
    moreover from lev sh have "shift ?u ! 0 ! (insertindex ?u ! 0) = v"
      by (simp add: level_def add_reset_def)
    moreover from lev have "ncorrelation ?u ! 0 ! 0 = ncorrelation s ! 0 ! 0"
      by (simp add: level_def add_reset_def add_insert_def)
    ultimately show ?thesis
      using ncorrelation_lag0 [of c ?u] assms(3) accu
      by (simp add: s' add_finish_def add_advance_def add_reset_def)
  qed
qed

lemma add_all_constant:
  assumes "1 \<le> numcorrelators c" and "1 \<le> m c"
  shows "allocated c s \<Longrightarrow> kmax s \<le> numcorrelators c \<Longrightarrow>
    \<forall>j<numcorrelators c. in_range c s j \<Longrightarrow> \<forall>j<numcorrelators c. const_level c v s j \<Longrightarrow>
    \<exists>s'. add_all c (replicate n v) s = Some s' \<and> allocated c s' \<and> kmax s' \<le> numcorrelators c \<and>
      (\<forall>j<numcorrelators c. const_level c v s' j) \<and>
      accval s' = accval s + real n * v \<and>
      (v > - 10000000000 \<longrightarrow> ncorrelation s' ! 0 ! 0 = ncorrelation s ! 0 ! 0 + n)"
proof (induction n arbitrary: s)
  case 0
  then show ?case
    by simp
next
  case (Suc n)
  from Suc.prems(3) have "\<forall>j<numcorrelators c. insertindex s ! j < p c"
    by (simp add: in_range_def)
  from add_returns [OF _ this, of 0 v] obtain u where u: "add c v 0 s = Some u"
    by auto
  note al = allocated_add [OF u Suc.prems(1)]
  from kmax_add [OF u] Suc.prems(2) have km: "kmax u \<le> numcorrelators c"
    by simp
  note rg = in_range_add [OF u assms(2) Suc.prems(1,3)]
  from add_const_level [OF u, of v] Suc.prems(1,4)
  have cl: "\<forall>j<numcorrelators c. const_level c v u j"
    by simp
  from Suc.IH [OF al km rg cl] obtain s' where s': "add_all c (replicate n v) u = Some s'"
    "allocated c s'" "kmax s' \<le> numcorrelators c" "\<forall>j<numcorrelators c. const_level c v s' j"
    "accval s' = accval u + real n * v"
    "v > - 10000000000 \<longrightarrow> ncorrelation s' ! 0 ! 0 = ncorrelation u ! 0 ! 0 + n"
    by blast
  from add_level0_counts [OF u Suc.prems(1) assms(1)] s'(5,6)
  have "accval s' = accval s + real (Suc n) * v"
    and "v > - 10000000000 \<longrightarrow> ncorrelation s' ! 0 ! 0 = ncorrelation s ! 0 ! 0 + Suc n"
    by (simp_all add: algebra_simps)
  with u s'(1-4) show ?case
    by simp
qed

lemma emitted_pairs_initialize: "1 \<le> numcorrelators c \<Longrightarrow> emitted_pairs c nrm (initialize c) = []"
  by (auto simp: emitted_pairs_def initialize_def filter_empty_conv)

lemma const_level_value:
  assumes "const_level c v s k" and "i < p c" and "0 < ncorrelation s ! k ! i"
  shows "v > - 10000000000 \<and> correlation s ! k ! i / real (ncorrelation s ! k ! i) = v * v"
  using assms by (auto simp: const_level_def)

lemma constant_pairs:
  assumes "\<forall>j<numcorrelators c. const_level c v s j" and "kmax s \<le> numcorrelators c"
    and "1 \<le> numcorrelators c" and "x \<in> set (emitted_pairs c nrm s)"
  shows "v > - 10000000000 \<and>
    snd x = v * v - (if nrm then (accval s / real (ncorrelation s ! 0 ! 0))\<^sup>2 else 0)"
proof -
  have lv: "v > - 10000000000 \<and> correlation s ! k ! i / real (ncorrelation s ! k ! i) = v * v"
    if "k < numcorrelators c" and "i < p c" and "0 < ncorrelation s ! k ! i" for k i
    using const_level_value [OF _ that(2,3)] assms(1) that(1) by blast
  have l0: "v > - 10000000000 \<and> correlation s ! 0 ! i / real (ncorrelation s ! 0 ! i) = v * v"
    if "i < p c" and "0 < ncorrelation s ! 0 ! i" for i
    using lv [of 0 i] that assms(3) by simp
  have lk: "v > - 10000000000 \<and> correlation s ! k ! i / real (ncorrelation s ! k ! i) = v * v"
    if "k < kmax s" and "i < p c" and "0 < ncorrelation s ! k ! i" for k i
    using lv [of k i] that assms(2) by simp
  from assms(4) show ?thesis
    using l0 lk by (auto simp: emitted_pairs_def Let_def)
qed

text \<open>
  C5. Feed the same value \<open>v\<close> to a freshly initialized engine at least
  \<open>p * m^(numcorrelators-1)\<close> times. Then \<^verbatim>\<open>evaluate(false)\<close> gives \<open>f[i] = v\<^sup>2\<close> and
  \<^verbatim>\<open>evaluate(true)\<close> gives \<open>f[i] = 0\<close> at every one of the \<^verbatim>\<open>npcorr\<close> emitted positions,
  in exact arithmetic: \<open>aux\<close> is \<open>(n v / n)\<^sup>2\<close>. When \<open>v\<close> passes the test of line 121,
  something is emitted; otherwise no slot ever counts as filled and \<^verbatim>\<open>npcorr\<close> is 0.
\<close>

theorem constant_signal:
  assumes "1 \<le> numcorrelators c" and "1 \<le> p c" and "1 \<le> m c"
    and "p c * m c ^ (numcorrelators c - 1) \<le> n"
  shows "\<exists>s s0 s1. add_all c (replicate n v) (initialize c) = Some s \<and>
    evaluate c False s = Some s0 \<and> evaluate c True s = Some s1 \<and>
    (\<forall>i<npcorr s0. f s0 ! i = v * v) \<and> (\<forall>i<npcorr s1. f s1 ! i = 0) \<and>
    (v > - 10000000000 \<longrightarrow> 0 < npcorr s0 \<and> 0 < npcorr s1)"
proof -
  have "kmax (initialize c) \<le> numcorrelators c"
    by (simp add: initialize_def)
  moreover have "\<forall>j<numcorrelators c. in_range c (initialize c) j"
    using in_range_initialize [OF assms(2,3)] by simp
  moreover have "\<forall>j<numcorrelators c. const_level c v (initialize c) j"
    using const_level_initialize by simp
  moreover have "accval (initialize c) = 0" and "ncorrelation (initialize c) ! 0 ! 0 = 0"
    using assms(1,2) by (simp_all add: initialize_def)
  ultimately obtain s where s: "add_all c (replicate n v) (initialize c) = Some s"
    and al: "allocated c s" and km: "kmax s \<le> numcorrelators c"
    and cl: "\<forall>j<numcorrelators c. const_level c v s j"
    and av: "accval s = real n * v"
    and n0: "v > - 10000000000 \<longrightarrow> ncorrelation s ! 0 ! 0 = n"
    using add_all_constant [OF assms(1,3) allocated_initialize, of v n] by auto
  from assms(2,3,4) have n: "0 < n"
    by (metis less_le_trans mult_pos_pos zero_less_power zero_less_one less_le_trans
        le_eq_less_or_eq not_gr_zero not_one_le_zero)
  define s0 where "s0 = s \<lparr> t := map fst (emitted_pairs c False s) @ drop (length (emitted_pairs c False s)) (t s),
    f := map snd (emitted_pairs c False s) @ drop (length (emitted_pairs c False s)) (f s),
    npcorr := length (emitted_pairs c False s) \<rparr>"
  define s1 where "s1 = s \<lparr> t := map fst (emitted_pairs c True s) @ drop (length (emitted_pairs c True s)) (t s),
    f := map snd (emitted_pairs c True s) @ drop (length (emitted_pairs c True s)) (f s),
    npcorr := length (emitted_pairs c True s) \<rparr>"
  have e0: "evaluate c False s = Some s0" and e1: "evaluate c True s = Some s1"
    by (simp_all add: evaluate_lists [OF al assms(1,2) km] s0_def s1_def)
  have f0: "f s0 ! i = v * v" if "i < npcorr s0" for i
  proof -
    from that have "emitted_pairs c False s ! i \<in> set (emitted_pairs c False s)"
      by (simp add: s0_def)
    from constant_pairs [OF cl km assms(1) this] that show ?thesis
      by (simp add: s0_def nth_append)
  qed
  have f1: "f s1 ! i = 0" if "i < npcorr s1" for i
  proof -
    from that have "emitted_pairs c True s ! i \<in> set (emitted_pairs c True s)"
      by (simp add: s1_def)
    from constant_pairs [OF cl km assms(1) this] n0 av n that show ?thesis
      by (simp add: s1_def nth_append power2_eq_square)
  qed
  have pos: "0 < length (emitted_pairs c nrm s)" if "v > - 10000000000" for nrm
  proof -
    from that n0 n assms(2) have "0 \<in> set (filter (\<lambda>i. 0 < ncorrelation s ! 0 ! i) [0..<p c])"
      by simp
    then have "filter (\<lambda>i. 0 < ncorrelation s ! 0 ! i) [0..<p c] \<noteq> []"
      by (metis empty_iff empty_set)
    then show ?thesis
      by (simp add: emitted_pairs_def Let_def)
  qed
  from s e0 e1 f0 f1 pos show ?thesis
    by (auto simp: s0_def s1_def)
qed


theorem constant_signal_witness:
  "\<exists>s s0 s1. add_all \<lparr>numcorrelators = 2, p = 2, m = 2\<rparr> (replicate 4 3)
        (initialize \<lparr>numcorrelators = 2, p = 2, m = 2\<rparr>) = Some s \<and>
     evaluate \<lparr>numcorrelators = 2, p = 2, m = 2\<rparr> False s = Some s0 \<and>
     evaluate \<lparr>numcorrelators = 2, p = 2, m = 2\<rparr> True s = Some s1 \<and>
     0 < npcorr s0 \<and> 0 < npcorr s1 \<and> f s0 ! 0 = 9 \<and> f s1 ! 0 = 0"
proof -
  from constant_signal [of "\<lparr>numcorrelators = 2, p = 2, m = 2\<rparr>" 4 3]
  obtain s s0 s1 where "add_all \<lparr>numcorrelators = 2, p = 2, m = 2\<rparr> (replicate 4 3)
        (initialize \<lparr>numcorrelators = 2, p = 2, m = 2\<rparr>) = Some s"
    and "evaluate \<lparr>numcorrelators = 2, p = 2, m = 2\<rparr> False s = Some s0"
    and "evaluate \<lparr>numcorrelators = 2, p = 2, m = 2\<rparr> True s = Some s1"
    and "\<forall>i<npcorr s0. f s0 ! i = 3 * 3" and "\<forall>i<npcorr s1. f s1 ! i = 0"
    and "0 < npcorr s0" and "0 < npcorr s1"
    by auto
  then show ?thesis
    by auto
qed

subsection \<open>Which lags are emitted\<close>



subsection \<open>The effect of one call at its own level\<close>

lemma add_finish_fields [simp]:
  "shift (add_finish c k s) = shift s"
  "accumulator (add_finish c k s) = accumulator s"
  "naccumulator (add_finish c k s) = naccumulator s"
  "insertindex (add_finish c k s) =
     (insertindex s)[k := (if insertindex s ! k + 1 = p c then 0 else insertindex s ! k + 1)]"
  by (simp_all add: add_finish_def add_advance_def)

lemma add_cases [consumes 2, case_names plain cascade]:
  assumes "add c w k s = Some s'" and "k < numcorrelators c"
  obtains (plain) "insertindex s ! k < p c" and "naccumulator (add_insert w k s) ! k \<noteq> m c"
      and "s' = add_finish c k (add_insert w k s)"
  | (cascade) u where "insertindex s ! k < p c" and "naccumulator (add_insert w k s) ! k = m c"
      and "add c (accumulator (add_insert w k s) ! k / real (m c)) (k + 1) (add_insert w k s) = Some u"
      and "s' = add_finish c k (add_reset k u)"
proof -
  from assms have ins: "insertindex s ! k < p c"
    by (auto simp: add.simps [of c w k s] split: if_splits)
  show thesis
  proof (cases "naccumulator (add_insert w k s) ! k = m c")
    case False
    with assms ins have "s' = add_finish c k (add_insert w k s)"
      by (simp add: add.simps [of c w k s] add_finish_def)
    with ins False show thesis
      by (rule plain)
  next
    case True
    with assms ins obtain u
      where "add c (accumulator (add_insert w k s) ! k / real (m c)) (k + 1) (add_insert w k s) = Some u"
        and "s' = add_finish c k (add_reset k u)"
      by (auto simp: add.simps [of c w k s] add_finish_def split: option.splits)
    with ins True show thesis
      by (rule cascade)
  qed
qed

lemma add_insert_at:
  assumes "allocated c s" and "k < numcorrelators c"
  shows "naccumulator (add_insert w k s) ! k = naccumulator s ! k + 1"
    and "accumulator (add_insert w k s) ! k = accumulator s ! k + w"
    and "shift (add_insert w k s) ! k = (shift s ! k)[insertindex s ! k := w]"
  using allocated_lengths [OF assms] by (simp_all add: add_insert_def)

lemma add_shift_at:
  assumes "add c w k s = Some s'" and "k < numcorrelators c" and "allocated c s"
  shows "shift s' ! k = (shift s ! k)[insertindex s ! k := w]"
  using assms(1,2)
proof (cases rule: add_cases)
  case plain
  then show ?thesis
    by (simp add: add_insert_at [OF assms(3,2)])
next
  case (cascade u)
  from add_level_below [OF cascade(3)] have "level u k = level (add_insert w k s) k"
    by simp
  with cascade(4) show ?thesis
    by (simp add: add_insert_at [OF assms(3,2)] level_def add_reset_def)
qed

lemma add_insertindex_at:
  assumes "add c w k s = Some s'" and "k < numcorrelators c" and "allocated c s"
  shows "insertindex s' ! k = (if insertindex s ! k + 1 = p c then 0 else insertindex s ! k + 1)"
  using assms(1,2)
proof (cases rule: add_cases)
  case plain
  with allocated_lengths(6) [OF assms(3,2)] show ?thesis
    by simp
next
  case (cascade u)
  from add_level_below [OF cascade(3)] have lev: "level u k = level (add_insert w k s) k"
    by simp
  from shape_add [OF cascade(3)] assms(3) have "allocated c u"
    by (simp add: allocated_shape)
  from cascade(4) lev allocated_lengths(6) [OF this assms(2)] show ?thesis
    by (simp add: level_def add_reset_def)
qed

lemma add_plain:
  assumes "add c w k s = Some s'" and "k < numcorrelators c" and "allocated c s"
    and "naccumulator s ! k + 1 \<noteq> m c"
  shows "naccumulator s' ! k = naccumulator s ! k + 1 \<and>
    accumulator s' ! k = accumulator s ! k + w \<and>
    (\<forall>j. j \<noteq> k \<longrightarrow> level s' j = level s j)"
  using assms(1,2)
proof (cases rule: add_cases)
  case plain
  then show ?thesis
    by (simp add: add_insert_at [OF assms(3,2)] level_add_finish level_add_insert)
next
  case (cascade u)
  with assms(4) show ?thesis
    by (simp add: add_insert_at [OF assms(3,2)])
qed

lemma add_cascade:
  assumes "add c w k s = Some s'" and "k < numcorrelators c" and "allocated c s"
    and "naccumulator s ! k + 1 = m c"
  shows "\<exists>u. add c ((accumulator s ! k + w) / real (m c)) (k + 1) (add_insert w k s) = Some u \<and>
      (\<forall>j. j \<noteq> k \<longrightarrow> level s' j = level u j) \<and>
      naccumulator s' ! k = 0 \<and> accumulator s' ! k = 0"
  using assms(1,2)
proof (cases rule: add_cases)
  case plain
  with assms(4) show ?thesis
    by (simp add: add_insert_at [OF assms(3,2)])
next
  case (cascade u)
  from shape_add [OF cascade(3)] assms(3) have al: "allocated c u"
    by (simp add: allocated_shape)
  from cascade(3) have "add c ((accumulator s ! k + w) / real (m c)) (k + 1) (add_insert w k s) = Some u"
    by (simp add: add_insert_at [OF assms(3,2)])
  moreover from cascade(4) have "\<forall>j. j \<noteq> k \<longrightarrow> level s' j = level u j"
    by (simp add: level_add_finish level_add_reset)
  moreover from cascade(4) allocated_lengths(4,5) [OF al assms(2)]
  have "naccumulator s' ! k = 0" and "accumulator s' ! k = 0"
    by (simp_all add: add_reset_def)
  ultimately show ?thesis
    by blast
qed

subsection \<open>Groups of m samples\<close>

lemma add_all_append:
  "add_all c (xs @ ys) s = (case add_all c xs s of None \<Rightarrow> None | Some s' \<Rightarrow> add_all c ys s')"
  by (induction xs arbitrary: s) (auto split: option.splits)

text \<open>Samples that do not complete a group stay at level 0.\<close>

lemma feed_no_cascade:
  assumes "1 \<le> numcorrelators c" and "1 \<le> m c"
  shows "allocated c s \<Longrightarrow> \<forall>j<numcorrelators c. in_range c s j \<Longrightarrow>
    naccumulator s ! 0 + length ys < m c \<Longrightarrow>
    \<exists>s'. add_all c ys s = Some s' \<and> allocated c s' \<and> (\<forall>j<numcorrelators c. in_range c s' j) \<and>
      (\<forall>j. j \<noteq> 0 \<longrightarrow> level s' j = level s j) \<and>
      naccumulator s' ! 0 = naccumulator s ! 0 + length ys \<and>
      accumulator s' ! 0 = accumulator s ! 0 + sum_list ys"
proof (induction ys arbitrary: s)
  case Nil
  then show ?case
    by simp
next
  case (Cons y ys)
  from assms(1) have k: "0 < numcorrelators c"
    by simp
  from Cons.prems(2) have "\<forall>j<numcorrelators c. insertindex s ! j < p c"
    by (simp add: in_range_def)
  from add_returns [OF _ this, of 0 y] obtain u where u: "add c y 0 s = Some u"
    by auto
  from Cons.prems(3) have "naccumulator s ! 0 + 1 \<noteq> m c"
    by simp
  from add_plain [OF u k Cons.prems(1) this]
  have pl: "naccumulator u ! 0 = naccumulator s ! 0 + 1" "accumulator u ! 0 = accumulator s ! 0 + y"
    "\<forall>j. j \<noteq> 0 \<longrightarrow> level u j = level s j"
    by simp_all
  note al = allocated_add [OF u Cons.prems(1)]
  note rg = in_range_add [OF u assms(2) Cons.prems(1,2)]
  from Cons.prems(3) pl(1) have "naccumulator u ! 0 + length ys < m c"
    by simp
  from Cons.IH [OF al rg this] pl u show ?case
    by (auto simp: algebra_simps)
qed

text \<open>
  A whole group: the last sample makes the one call at level 1, with the average of the
  group, in a state \<open>s1\<close> whose levels above 0 are those before the group.
\<close>

lemma feed_block:
  assumes "1 \<le> numcorrelators c" and "1 \<le> m c" and "allocated c s"
    and "\<forall>j<numcorrelators c. in_range c s j"
    and "naccumulator s ! 0 = 0" and "accumulator s ! 0 = 0" and "length xs = m c"
  shows "\<exists>s1 u s'. add_all c xs s = Some s' \<and>
    add c (sum_list xs / real (m c)) 1 s1 = Some u \<and> allocated c s1 \<and>
    (\<forall>j. j \<noteq> 0 \<longrightarrow> level s1 j = level s j) \<and>
    (\<forall>j. j \<noteq> 0 \<longrightarrow> level s' j = level u j) \<and>
    naccumulator s' ! 0 = 0 \<and> accumulator s' ! 0 = 0 \<and>
    allocated c s' \<and> (\<forall>j<numcorrelators c. in_range c s' j)"
proof -
  from assms(1) have k: "0 < numcorrelators c"
    by simp
  from assms(2,7) have ne: "xs \<noteq> []"
    by auto
  define ys x where "ys = butlast xs" and "x = last xs"
  from ne have xs: "xs = ys @ [x]"
    by (simp add: ys_def x_def)
  with assms(5,7) have "naccumulator s ! 0 + length ys < m c"
    by simp
  from feed_no_cascade [OF assms(1,2,3,4) this]
  obtain sa where sa: "add_all c ys s = Some sa" and al: "allocated c sa"
    and rg: "\<forall>j<numcorrelators c. in_range c sa j"
    and lev: "\<forall>j. j \<noteq> 0 \<longrightarrow> level sa j = level s j"
    and na: "naccumulator sa ! 0 = length ys" and ac: "accumulator sa ! 0 = sum_list ys"
    using assms(5,6) by auto
  from rg have "\<forall>j<numcorrelators c. insertindex sa ! j < p c"
    by (simp add: in_range_def)
  from add_returns [OF _ this, of 0 x] obtain s' where s': "add c x 0 sa = Some s'"
    by auto
  from na xs assms(7) have "naccumulator sa ! 0 + 1 = m c"
    by simp
  from add_cascade [OF s' k al this]
  obtain u where u: "add c ((accumulator sa ! 0 + x) / real (m c)) (0 + 1) (add_insert x 0 sa) = Some u"
    and levu: "\<forall>j. j \<noteq> 0 \<longrightarrow> level s' j = level u j"
    and z: "naccumulator s' ! 0 = 0" "accumulator s' ! 0 = 0"
    by blast
  have "add_all c xs s = Some s'"
    by (simp add: xs add_all_append sa s')
  moreover from u ac have "add c (sum_list xs / real (m c)) 1 (add_insert x 0 sa) = Some u"
    by (simp add: xs)
  moreover from al have "allocated c (add_insert x 0 sa)"
    by (simp add: allocated_shape)
  moreover from lev have "\<forall>j. j \<noteq> 0 \<longrightarrow> level (add_insert x 0 sa) j = level s j"
    by (simp add: level_add_insert)
  moreover note levu z allocated_add [OF s' al] in_range_add [OF s' assms(2) al rg]
  ultimately show ?thesis
    by blast
qed

lemma level_initialize:
  "k < numcorrelators c \<Longrightarrow>
   level (initialize c) k = (replicate (p c) (- 20000000000), replicate (p c) 0, replicate (p c) 0, 0, 0, 0)"
  by (simp add: level_def initialize_def)

lemma in_range_initialize_all:
  "1 \<le> p c \<Longrightarrow> 1 \<le> m c \<Longrightarrow> \<forall>j<numcorrelators c. in_range c (initialize c) j"
  by (simp add: in_range_initialize)

lemma next_index_mod: "1 \<le> n \<Longrightarrow> (if 0 + 1 = n then 0 else 0 + 1) = 1 mod (n::nat)"
  by (cases "n = 1") simp_all

lemma first_group:
  assumes "2 \<le> numcorrelators c" and "1 \<le> p c" and "1 \<le> m c" and "length xs = m c"
  shows "\<exists>s. add_all c xs (initialize c) = Some s \<and> naccumulator s ! 0 = 0 \<and>
    shift s ! 1 = (replicate (p c) (- 20000000000))[0 := sum_list xs / real (m c)] \<and>
    insertindex s ! 1 = 1 mod p c \<and> naccumulator s ! 1 = 1 mod m c"
proof -
  from assms(1) have n1: "1 \<le> numcorrelators c" and k1: "1 < numcorrelators c"
    by simp_all
  have z: "naccumulator (initialize c) ! 0 = 0" "accumulator (initialize c) ! 0 = 0"
    using n1 by (simp_all add: initialize_def)
  from feed_block [OF n1 assms(3) allocated_initialize in_range_initialize_all [OF assms(2,3)] z assms(4)]
  obtain s1 u s where s: "add_all c xs (initialize c) = Some s"
    and u: "add c (sum_list xs / real (m c)) 1 s1 = Some u" and al: "allocated c s1"
    and l1: "\<forall>j. j \<noteq> 0 \<longrightarrow> level s1 j = level (initialize c) j"
    and ls: "\<forall>j. j \<noteq> 0 \<longrightarrow> level s j = level u j"
    and n0: "naccumulator s ! 0 = 0"
    by blast
  from l1 k1 have i1: "shift s1 ! 1 = replicate (p c) (- 20000000000)" "insertindex s1 ! 1 = 0"
      "naccumulator s1 ! 1 = 0"
    by (simp_all add: level_def initialize_def)
  from add_shift_at [OF u k1 al] i1
  have "shift u ! 1 = (replicate (p c) (- 20000000000))[0 := sum_list xs / real (m c)]"
    by simp
  moreover from add_insertindex_at [OF u k1 al] i1 assms(2) have "insertindex u ! 1 = 1 mod p c"
    by (simp add: next_index_mod)
  moreover have "naccumulator u ! 1 = 1 mod m c"
  proof (cases "m c = 1")
    case True
    with add_cascade [OF u k1 al] i1 show ?thesis
      by auto
  next
    case False
    with add_plain [OF u k1 al] i1 assms(3) show ?thesis
      by simp
  qed
  moreover from ls have "level s 1 = level u 1"
    by simp
  ultimately show ?thesis
    using s n0 by (auto simp: level_def)
qed

text \<open>Whole groups that do not complete a group of groups stay at levels 0 and 1.\<close>

lemma groups_no_cascade:
  assumes "2 \<le> numcorrelators c" and "1 \<le> m c"
  shows "allocated c s \<Longrightarrow> \<forall>j<numcorrelators c. in_range c s j \<Longrightarrow>
    naccumulator s ! 0 = 0 \<Longrightarrow> accumulator s ! 0 = 0 \<Longrightarrow>
    length ys = b * m c \<Longrightarrow> naccumulator s ! 1 + b < m c \<Longrightarrow>
    \<exists>s'. add_all c ys s = Some s' \<and> allocated c s' \<and> (\<forall>j<numcorrelators c. in_range c s' j) \<and>
      naccumulator s' ! 0 = 0 \<and> accumulator s' ! 0 = 0 \<and>
      (\<forall>j. 1 < j \<longrightarrow> level s' j = level s j) \<and>
      naccumulator s' ! 1 = naccumulator s ! 1 + b \<and>
      accumulator s' ! 1 = accumulator s ! 1 + sum_list ys / real (m c)"
proof (induction b arbitrary: s ys)
  case 0
  then show ?case
    by simp
next
  case (Suc b)
  from assms(1) have n1: "1 \<le> numcorrelators c" and k1: "1 < numcorrelators c"
    by simp_all
  define xs zs where "xs = take (m c) ys" and "zs = drop (m c) ys"
  from Suc.prems(5) have ys: "ys = xs @ zs" and lx: "length xs = m c" and lz: "length zs = b * m c"
    by (simp_all add: xs_def zs_def)
  from feed_block [OF n1 assms(2) Suc.prems(1,2,3,4) lx]
  obtain s1 u sb where sb: "add_all c xs s = Some sb"
    and u: "add c (sum_list xs / real (m c)) 1 s1 = Some u" and al1: "allocated c s1"
    and l1: "\<forall>j. j \<noteq> 0 \<longrightarrow> level s1 j = level s j"
    and lb: "\<forall>j. j \<noteq> 0 \<longrightarrow> level sb j = level u j"
    and zb: "naccumulator sb ! 0 = 0" "accumulator sb ! 0 = 0"
    and alb: "allocated c sb" and rgb: "\<forall>j<numcorrelators c. in_range c sb j"
    by blast
  from l1 have f1: "naccumulator s1 ! 1 = naccumulator s ! 1" "accumulator s1 ! 1 = accumulator s ! 1"
    by (simp_all add: level_def)
  from Suc.prems(6) f1 have "naccumulator s1 ! 1 + 1 \<noteq> m c"
    by simp
  from add_plain [OF u k1 al1 this] f1
  have pu: "naccumulator u ! 1 = naccumulator s ! 1 + 1"
    "accumulator u ! 1 = accumulator s ! 1 + sum_list xs / real (m c)"
    "\<forall>j. j \<noteq> 1 \<longrightarrow> level u j = level s1 j"
    by simp_all
  from lb have "level sb 1 = level u 1"
    by simp
  with pu(1,2) have fb: "naccumulator sb ! 1 = naccumulator s ! 1 + 1"
    "accumulator sb ! 1 = accumulator s ! 1 + sum_list xs / real (m c)"
    by (simp_all add: level_def)
  from lb pu(3) l1 have above: "\<forall>j. 1 < j \<longrightarrow> level sb j = level s j"
    by simp
  from Suc.prems(6) fb(1) have "naccumulator sb ! 1 + b < m c"
    by simp
  from Suc.IH [OF alb rgb zb lz this]
  obtain s' where "add_all c zs sb = Some s'" "allocated c s'" "\<forall>j<numcorrelators c. in_range c s' j"
    "naccumulator s' ! 0 = 0" "accumulator s' ! 0 = 0" "\<forall>j. 1 < j \<longrightarrow> level s' j = level sb j"
    "naccumulator s' ! 1 = naccumulator sb ! 1 + b"
    "accumulator s' ! 1 = accumulator sb ! 1 + sum_list zs / real (m c)"
    by blast
  with sb fb above show ?case
    by (simp add: ys add_all_append add_divide_distrib)
qed

lemma second_level:
  assumes "3 \<le> numcorrelators c" and "1 \<le> p c" and "1 \<le> m c" and "length ys = m c * m c"
  shows "\<exists>s. add_all c ys (initialize c) = Some s \<and>
    shift s ! 2 = (replicate (p c) (- 20000000000))[0 := sum_list ys / real (m c * m c)] \<and>
    insertindex s ! 2 = 1 mod p c"
proof -
  from assms(1) have n1: "1 \<le> numcorrelators c" and n2: "2 \<le> numcorrelators c"
    and k1: "1 < numcorrelators c" and k2: "2 < numcorrelators c"
    by simp_all
  define as xs where "as = take ((m c - 1) * m c) ys" and "xs = drop ((m c - 1) * m c) ys"
  from assms(3) have mm: "(m c - 1) * m c + m c = m c * m c"
    by (cases "m c") simp_all
  with assms(4) have ys: "ys = as @ xs" and la: "length as = (m c - 1) * m c" and lx: "length xs = m c"
    by (simp_all add: as_def xs_def)
  have z: "naccumulator (initialize c) ! 0 = 0" "accumulator (initialize c) ! 0 = 0"
    "naccumulator (initialize c) ! 1 = 0" "accumulator (initialize c) ! 1 = 0"
    using k1 by (simp_all add: initialize_def)
  from assms(3) z(3) have "naccumulator (initialize c) ! 1 + (m c - 1) < m c"
    by simp
  from groups_no_cascade [OF n2 assms(3) allocated_initialize in_range_initialize_all [OF assms(2,3)]
      z(1,2) la this]
  obtain sa where sa: "add_all c as (initialize c) = Some sa" and ala: "allocated c sa"
    and rga: "\<forall>j<numcorrelators c. in_range c sa j"
    and za: "naccumulator sa ! 0 = 0" "accumulator sa ! 0 = 0"
    and la2: "\<forall>j. 1 < j \<longrightarrow> level sa j = level (initialize c) j"
    and fa: "naccumulator sa ! 1 = m c - 1" "accumulator sa ! 1 = sum_list as / real (m c)"
    using z(3,4) by auto
  from feed_block [OF n1 assms(3) ala rga za lx]
  obtain s1 u s where s: "add_all c xs sa = Some s"
    and u: "add c (sum_list xs / real (m c)) 1 s1 = Some u" and al1: "allocated c s1"
    and l1: "\<forall>j. j \<noteq> 0 \<longrightarrow> level s1 j = level sa j"
    and ls: "\<forall>j. j \<noteq> 0 \<longrightarrow> level s j = level u j"
    by blast
  from l1 fa have f1: "naccumulator s1 ! 1 = m c - 1" "accumulator s1 ! 1 = sum_list as / real (m c)"
    by (simp_all add: level_def)
  from f1(1) assms(3) have "naccumulator s1 ! 1 + 1 = m c"
    by simp
  from add_cascade [OF u k1 al1 this]
  obtain u2 where u2: "add c ((accumulator s1 ! 1 + sum_list xs / real (m c)) / real (m c)) (1 + 1)
      (add_insert (sum_list xs / real (m c)) 1 s1) = Some u2"
    and lu: "\<forall>j. j \<noteq> 1 \<longrightarrow> level u j = level u2 j"
    by blast
  let ?s2 = "add_insert (sum_list xs / real (m c)) 1 s1"
  have w: "(accumulator s1 ! 1 + sum_list xs / real (m c)) / real (m c) = sum_list ys / real (m c * m c)"
    using f1(2) by (simp add: ys add_divide_distrib)
  from u2 w have u2': "add c (sum_list ys / real (m c * m c)) 2 ?s2 = Some u2"
    by (simp add: numeral_2_eq_2)
  have al2: "allocated c ?s2"
    using al1 by (simp add: allocated_shape)
  have "level ?s2 2 = level (initialize c) 2"
    using l1 la2 by (simp add: level_add_insert)
  with k2 have i2: "shift ?s2 ! 2 = replicate (p c) (- 20000000000)" "insertindex ?s2 ! 2 = 0"
    by (simp_all add: level_def initialize_def)
  from add_shift_at [OF u2' k2 al2] i2
  have "shift u2 ! 2 = (replicate (p c) (- 20000000000))[0 := sum_list ys / real (m c * m c)]"
    by simp
  moreover from add_insertindex_at [OF u2' k2 al2] i2 assms(2) have "insertindex u2 ! 2 = 1 mod p c"
    by (simp add: next_index_mod)
  moreover from ls lu have "level s 2 = level u2 2"
    by simp
  moreover have "add_all c ys (initialize c) = Some s"
    by (simp add: ys add_all_append sa s)
  ultimately show ?thesis
    by (auto simp: level_def)
qed

text \<open>
  C4, as the code has it. On a freshly initialized engine with at least two levels,
  \<open>p \<ge> 1\<close> and \<open>m \<ge> 1\<close>, after exactly \<open>m\<close> samples level 1 holds one inserted value, the
  exact average of the samples, in slot 0 and nothing else; \<^verbatim>\<open>naccumulator[0]\<close> is 0, the
  insert index of level 1 is 1 modulo \<open>p\<close> and its accumulator count is 1 modulo \<open>m\<close>. When
  there are at least three levels, after exactly \<open>m\<^sup>2\<close> samples level 2 holds one inserted
  value, the average of all of them, in slot 0 and nothing else, and its insert index is 1
  modulo \<open>p\<close>.
\<close>

theorem cascade_timing:
  assumes "2 \<le> numcorrelators c" and "1 \<le> p c" and "1 \<le> m c"
  shows "(length xs = m c \<longrightarrow>
      (\<exists>s. add_all c xs (initialize c) = Some s \<and> naccumulator s ! 0 = 0 \<and>
        shift s ! 1 = (replicate (p c) (- 20000000000))[0 := sum_list xs / real (m c)] \<and>
        insertindex s ! 1 = 1 mod p c \<and> naccumulator s ! 1 = 1 mod m c)) \<and>
    (3 \<le> numcorrelators c \<and> length ys = m c * m c \<longrightarrow>
      (\<exists>s. add_all c ys (initialize c) = Some s \<and>
        shift s ! 2 = (replicate (p c) (- 20000000000))[0 := sum_list ys / real (m c * m c)] \<and>
        insertindex s ! 2 = 1 mod p c))"
proof (intro conjI impI)
  assume "length xs = m c"
  from first_group [OF assms this]
  show "\<exists>s. add_all c xs (initialize c) = Some s \<and> naccumulator s ! 0 = 0 \<and>
        shift s ! 1 = (replicate (p c) (- 20000000000))[0 := sum_list xs / real (m c)] \<and>
        insertindex s ! 1 = 1 mod p c \<and> naccumulator s ! 1 = 1 mod m c" .
next
  assume "3 \<le> numcorrelators c \<and> length ys = m c * m c"
  then have "3 \<le> numcorrelators c" and "length ys = m c * m c"
    by simp_all
  from second_level [OF this(1) assms(2,3) this(2)]
  show "\<exists>s. add_all c ys (initialize c) = Some s \<and>
        shift s ! 2 = (replicate (p c) (- 20000000000))[0 := sum_list ys / real (m c * m c)] \<and>
        insertindex s ! 2 = 1 mod p c" .
qed

theorem cascade_timing_witness:
  "(\<exists>s. add_all \<lparr>numcorrelators = 3, p = 4, m = 2\<rparr> [1, 2]
        (initialize \<lparr>numcorrelators = 3, p = 4, m = 2\<rparr>) = Some s \<and>
      naccumulator s ! 0 = 0 \<and>
      shift s ! 1 = [3 / 2, - 20000000000, - 20000000000, - 20000000000] \<and>
      insertindex s ! 1 = 1 \<and> naccumulator s ! 1 = 1) \<and>
   (\<exists>s. add_all \<lparr>numcorrelators = 3, p = 4, m = 2\<rparr> [1, 2, 3, 4]
        (initialize \<lparr>numcorrelators = 3, p = 4, m = 2\<rparr>) = Some s \<and>
      shift s ! 2 = [5 / 2, - 20000000000, - 20000000000, - 20000000000] \<and>
      insertindex s ! 2 = 1)"
proof -
  define c where "c = \<lparr>numcorrelators = 3, p = 4, m = 2\<rparr>"
  have h: "2 \<le> numcorrelators c" "1 \<le> p c" "1 \<le> m c"
    by (simp_all add: c_def)
  have l1: "length [1, 2 :: real] = m c"
    and l2: "3 \<le> numcorrelators c \<and> length [1, 2, 3, 4 :: real] = m c * m c"
    by (simp_all add: c_def)
  have e: "(replicate (p c) (- 20000000000))[0 := sum_list [1, 2] / real (m c)]
      = [3 / 2, - 20000000000, - 20000000000, - 20000000000]"
    "(replicate (p c) (- 20000000000))[0 := sum_list [1, 2, 3, 4] / real (m c * m c)]
      = [5 / 2, - 20000000000, - 20000000000, - 20000000000]"
    unfolding c_def by code_simp+
  have r: "1 mod p c = 1" "1 mod m c = 1"
    by (simp_all add: c_def)
  from cascade_timing [OF h, of "[1, 2]" "[1, 2, 3, 4]"] l1 l2
  have "(\<exists>s. add_all c [1, 2] (initialize c) = Some s \<and> naccumulator s ! 0 = 0 \<and>
      shift s ! 1 = [3 / 2, - 20000000000, - 20000000000, - 20000000000] \<and>
      insertindex s ! 1 = 1 \<and> naccumulator s ! 1 = 1) \<and>
    (\<exists>s. add_all c [1, 2, 3, 4] (initialize c) = Some s \<and>
      shift s ! 2 = [5 / 2, - 20000000000, - 20000000000, - 20000000000] \<and>
      insertindex s ! 2 = 1)"
    unfolding e r by blast
  then show ?thesis
    unfolding c_def .
qed

text \<open>
  The claim as stated fails. With two levels there is no level 2: after \<open>m\<^sup>2 = 4\<close> samples
  the second average has been dropped by the guard of line 98, the arrays still have two
  rows and \<^verbatim>\<open>kmax\<close> is still 1. With \<open>p = 1\<close> the insert index of level 1 is back at 0
  after its first insertion.
\<close>

theorem cascade_timing_counterexample:
  "add_all \<lparr>numcorrelators = 2, p = 1, m = 2\<rparr> [1, 2, 3, 4]
      (initialize \<lparr>numcorrelators = 2, p = 1, m = 2\<rparr>) \<noteq> None \<and>
   kmax (the (add_all \<lparr>numcorrelators = 2, p = 1, m = 2\<rparr> [1, 2, 3, 4]
      (initialize \<lparr>numcorrelators = 2, p = 1, m = 2\<rparr>))) = 1 \<and>
   length (shift (the (add_all \<lparr>numcorrelators = 2, p = 1, m = 2\<rparr> [1, 2, 3, 4]
      (initialize \<lparr>numcorrelators = 2, p = 1, m = 2\<rparr>)))) = 2 \<and>
   insertindex (the (add_all \<lparr>numcorrelators = 2, p = 1, m = 2\<rparr> [1, 2]
      (initialize \<lparr>numcorrelators = 2, p = 1, m = 2\<rparr>))) ! 1 = 0"
  by code_simp

subsection \<open>Which slot a lag reads\<close>





























subsection \<open>Feeding samples to a fresh engine\<close>







subsection \<open>Which products are counted\<close>

text \<open>
  What the program does not record: which slots of \<^verbatim>\<open>shift\<close> line 102 has written since
  \<^verbatim>\<open>initialize\<close>, and for every level and lag index how many products lines 122 and 132
  have added to \<^verbatim>\<open>correlation\<close>, and how many of these had both factors in written slots.
\<close>

record history =
  written :: "bool list list"
  nterms :: "nat list list"
  nboth :: "nat list list"

definition no_history :: "config \<Rightarrow> history" where
  "no_history c =
     \<lparr> written = replicate (numcorrelators c) (replicate (p c) False),
       nterms = replicate (numcorrelators c) (replicate (p c) 0),
       nboth = replicate (numcorrelators c) (replicate (p c) 0) \<rparr>"

text \<open>Line 102 writes the slot \<^verbatim>\<open>shift[k][i]\<close>.\<close>

definition mark :: "nat \<Rightarrow> nat \<Rightarrow> history \<Rightarrow> history" where
  "mark k i h = h \<lparr> written := (written h)[k := (written h ! k)[i := True]] \<rparr>"

text \<open>
  Lines 121 to 124 (and 131 to 134) at lag index \<open>j\<close>: when the test holds, the product of
  the slots \<open>ind1\<close> and \<open>ind2\<close> enters \<^verbatim>\<open>correlation[k][j]\<close>.
\<close>

definition tally :: "nat \<Rightarrow> nat \<Rightarrow> nat \<Rightarrow> nat \<Rightarrow> correlator \<Rightarrow> history \<Rightarrow> history" where
  "tally k ind1 j ind2 s h =
     (if shift s ! k ! ind2 > - 10000000000 then
        h \<lparr> nterms := (nterms h)[k := (nterms h ! k)[j := nterms h ! k ! j + 1]],
            nboth := (nboth h)[k := (nboth h ! k)
              [j := nboth h ! k ! j + (if written h ! k ! ind1 \<and> written h ! k ! ind2 then 1 else 0)]] \<rparr>
      else h)"

text \<open>The history runs along the loops and calls of \<^verbatim>\<open>add\<close>, which make the state.\<close>

function hist_first :: "config \<Rightarrow> nat \<Rightarrow> nat \<Rightarrow> nat \<Rightarrow> int \<Rightarrow> correlator \<Rightarrow> history \<Rightarrow> history" where
  "hist_first c k ind1 j ind2 s h =
     (if j < p c then
        hist_first c k ind1 (j + 1)
          (if ind2 - 1 < 0 then ind2 - 1 + int (p c) else ind2 - 1)
          (corr_step k ind1 j (nat ind2) s)
          (tally k ind1 j (nat ind2) s h)
      else h)"
  by pat_completeness auto
termination
  by (relation "measure (\<lambda>(c, k, ind1, j, ind2, s, h). p c - j)") auto

declare hist_first.simps [simp del]

function hist_next :: "config \<Rightarrow> nat \<Rightarrow> nat \<Rightarrow> nat \<Rightarrow> int \<Rightarrow> correlator \<Rightarrow> history \<Rightarrow> history" where
  "hist_next c k ind1 j ind2 s h =
     (if j < p c then
        hist_next c k ind1 (j + 1)
          ((if ind2 < 0 then ind2 + int (p c) else ind2) - 1)
          (corr_step k ind1 j (nat (if ind2 < 0 then ind2 + int (p c) else ind2)) s)
          (tally k ind1 j (nat (if ind2 < 0 then ind2 + int (p c) else ind2)) s h)
      else h)"
  by pat_completeness auto
termination
  by (relation "measure (\<lambda>(c, k, ind1, j, ind2, s, h). p c - j)") auto

declare hist_next.simps [simp del]

definition hist_correlate :: "config \<Rightarrow> nat \<Rightarrow> correlator \<Rightarrow> history \<Rightarrow> history" where
  "hist_correlate c k s h =
     (let ind1 = insertindex s ! k in
      if k = 0 then hist_first c k ind1 0 (int ind1) s h
      else hist_next c k ind1 (d_min c) (int ind1 - int (d_min c)) s h)"

function hist_add :: "config \<Rightarrow> real \<Rightarrow> nat \<Rightarrow> correlator \<Rightarrow> history \<Rightarrow> history" where
  "hist_add c w k s h =
     (if k = numcorrelators c then h
      else if numcorrelators c < k \<or> p c \<le> insertindex s ! k then h
      else if naccumulator (add_insert w k s) ! k = m c then
        (case add c (accumulator (add_insert w k s) ! k / real (m c)) (k + 1) (add_insert w k s) of
           None \<Rightarrow> h
         | Some s' \<Rightarrow>
             hist_correlate c k (add_reset k s')
               (hist_add c (accumulator (add_insert w k s) ! k / real (m c)) (k + 1) (add_insert w k s)
                  (mark k (insertindex s ! k) h)))
      else hist_correlate c k (add_insert w k s) (mark k (insertindex s ! k) h))"
  by pat_completeness auto
termination
  by (relation "measure (\<lambda>(c, w, k, s, h). numcorrelators c - k)") auto

declare hist_add.simps [simp del]

fun hist_run :: "config \<Rightarrow> call list \<Rightarrow> correlator \<Rightarrow> history \<Rightarrow> history" where
  "hist_run c [] s h = h"
| "hist_run c (Add w k # calls) s h =
     (case add c w k s of None \<Rightarrow> h | Some s' \<Rightarrow> hist_run c calls s' (hist_add c w k s h))"
| "hist_run c (Evaluate nrm # calls) s h =
     (case evaluate c nrm s of None \<Rightarrow> h | Some s' \<Rightarrow> hist_run c calls s' h)"

text \<open>A property of state and history that every step keeps is kept by the loops.\<close>

lemma first_pair_rule:
  assumes "Q s h" and "0 \<le> ind2" and "ind2 < int (p c)"
    and step: "\<And>j i s h. j < p c \<Longrightarrow> i < p c \<Longrightarrow> Q s h \<Longrightarrow>
      Q (corr_step k ind1 j i s) (tally k ind1 j i s h)"
  shows "Q (corr_first c k ind1 j ind2 s) (hist_first c k ind1 j ind2 s h)"
  using assms(1-3)
proof (induction "p c - j" arbitrary: j ind2 s h)
  case 0
  then show ?case
    by (subst corr_first.simps, subst hist_first.simps) simp
next
  case (Suc n)
  then have j: "j < p c"
    by simp
  let ?i = "if ind2 - 1 < 0 then ind2 - 1 + int (p c) else ind2 - 1"
  have "Q (corr_step k ind1 j (nat ind2) s) (tally k ind1 j (nat ind2) s h)"
    using j Suc.prems by (intro step) auto
  moreover have "n = p c - (j + 1)"
    using Suc.hyps(2) by simp
  moreover from Suc.prems have "0 \<le> ?i" and "?i < int (p c)"
    by auto
  ultimately have "Q (corr_first c k ind1 (j + 1) ?i (corr_step k ind1 j (nat ind2) s))
      (hist_first c k ind1 (j + 1) ?i (corr_step k ind1 j (nat ind2) s) (tally k ind1 j (nat ind2) s h))"
    by (intro Suc.hyps(1))
  with j show ?case
    by (subst corr_first.simps, subst hist_first.simps) simp
qed

lemma next_pair_rule:
  assumes "Q s h" and "- int (p c) \<le> ind2" and "ind2 < int (p c)"
    and step: "\<And>j i s h. j < p c \<Longrightarrow> i < p c \<Longrightarrow> Q s h \<Longrightarrow>
      Q (corr_step k ind1 j i s) (tally k ind1 j i s h)"
  shows "Q (corr_next c k ind1 j ind2 s) (hist_next c k ind1 j ind2 s h)"
  using assms(1-3)
proof (induction "p c - j" arbitrary: j ind2 s h)
  case 0
  then show ?case
    by (subst corr_next.simps, subst hist_next.simps) simp
next
  case (Suc n)
  then have j: "j < p c"
    by simp
  let ?w = "if ind2 < 0 then ind2 + int (p c) else ind2"
  have "Q (corr_step k ind1 j (nat ?w) s) (tally k ind1 j (nat ?w) s h)"
    using j Suc.prems by (intro step) auto
  moreover have "n = p c - (j + 1)"
    using Suc.hyps(2) by simp
  moreover from Suc.prems j have "- int (p c) \<le> ?w - 1" and "?w - 1 < int (p c)"
    by auto
  ultimately have "Q (corr_next c k ind1 (j + 1) (?w - 1) (corr_step k ind1 j (nat ?w) s))
      (hist_next c k ind1 (j + 1) (?w - 1) (corr_step k ind1 j (nat ?w) s) (tally k ind1 j (nat ?w) s h))"
    by (intro Suc.hyps(1))
  with j show ?case
    by (subst corr_next.simps, subst hist_next.simps) simp
qed

lemma correlate_pair_rule:
  assumes "Q s h" and "insertindex s ! k < p c"
    and step: "\<And>j i s' h'. j < p c \<Longrightarrow> i < p c \<Longrightarrow> Q s' h' \<Longrightarrow>
      Q (corr_step k (insertindex s ! k) j i s') (tally k (insertindex s ! k) j i s' h')"
  shows "Q (add_correlate c k s) (hist_correlate c k s h)"
proof (cases "k = 0")
  case True
  from assms(2) have "0 \<le> int (insertindex s ! k)" and "int (insertindex s ! k) < int (p c)"
    by simp_all
  from first_pair_rule [of Q, OF assms(1) this step, of 0] True show ?thesis
    by (simp add: add_correlate_def hist_correlate_def Let_def)
next
  case False
  have "d_min c \<le> p c"
    by (simp add: d_min_def)
  with assms(2) have "- int (p c) \<le> int (insertindex s ! k) - int (d_min c)"
    and "int (insertindex s ! k) - int (d_min c) < int (p c)"
    by simp_all
  from next_pair_rule [of Q, OF assms(1) this step, of "d_min c"] False show ?thesis
    by (simp add: add_correlate_def hist_correlate_def Let_def)
qed

lemma nth_nth_update_any:
  "xs[k := (xs ! k)[j := v]] ! l ! i =
     (if k = l \<and> k < length xs \<and> j = i \<and> j < length (xs ! k) then v else xs ! l ! i)"
  by (auto simp: nth_update_any)

lemma written_tally [simp]: "written (tally k ind1 j ind2 s h) = written h"
  by (simp add: tally_def)

text \<open>
  State and history agree: the history has the sizes of the arrays, a slot that has not
  been written holds the value that \<^verbatim>\<open>initialize\<close> gave it, and every count is the number
  of products added, each of which had both factors in written slots.
\<close>

definition accounted :: "config \<Rightarrow> correlator \<Rightarrow> history \<Rightarrow> bool" where
  "accounted c s h \<longleftrightarrow>
     allocated c s \<and>
     length (written h) = numcorrelators c \<and>
     length (nterms h) = numcorrelators c \<and>
     length (nboth h) = numcorrelators c \<and>
     (\<forall>k<numcorrelators c. length (written h ! k) = p c \<and> length (nterms h ! k) = p c \<and>
        length (nboth h ! k) = p c) \<and>
     (\<forall>k<numcorrelators c. \<forall>i<p c. \<not> written h ! k ! i \<longrightarrow> shift s ! k ! i = - 20000000000) \<and>
     (\<forall>k<numcorrelators c. \<forall>i<p c.
        ncorrelation s ! k ! i = nterms h ! k ! i \<and> nterms h ! k ! i = nboth h ! k ! i)"

lemma accounted_initialize: "accounted c (initialize c) (no_history c)"
  by (simp add: accounted_def) (simp add: initialize_def no_history_def)

lemma accounted_step:
  assumes "accounted c s h" and "k < numcorrelators c" and "j < p c" and "i < p c"
    and "written h ! k ! ind1"
  shows "accounted c (corr_step k ind1 j i s) (tally k ind1 j i s h)"
proof (cases "shift s ! k ! i > - 10000000000")
  case False
  with assms(1) show ?thesis
    by (simp add: corr_step_def tally_def)
next
  case True
  have i: "written h ! k ! i"
  proof (rule ccontr)
    assume "\<not> written h ! k ! i"
    with assms(1,2,4) have "shift s ! k ! i = - 20000000000"
      by (simp add: accounted_def)
    with True show False
      by simp
  qed
  from assms(1) have "allocated c s"
    by (simp add: accounted_def)
  then have al: "allocated c (corr_step k ind1 j i s)"
    by (simp add: allocated_shape)
  from True have s': "shift (corr_step k ind1 j i s) = shift s"
    and n': "ncorrelation (corr_step k ind1 j i s)
      = (ncorrelation s)[k := (ncorrelation s ! k)[j := ncorrelation s ! k ! j + 1]]"
    by (simp_all add: corr_step_def)
  from True i assms(5) have w': "written (tally k ind1 j i s h) = written h"
    and t': "nterms (tally k ind1 j i s h) = (nterms h)[k := (nterms h ! k)[j := nterms h ! k ! j + 1]]"
    and b': "nboth (tally k ind1 j i s h) = (nboth h)[k := (nboth h ! k)[j := nboth h ! k ! j + 1]]"
    by (simp_all add: tally_def)
  from assms(1) have len: "length (nterms h) = numcorrelators c" "length (nboth h) = numcorrelators c"
    "length (written h) = numcorrelators c"
    and rows: "\<forall>k<numcorrelators c. length (written h ! k) = p c \<and> length (nterms h ! k) = p c \<and>
        length (nboth h ! k) = p c"
    and unwritten: "\<forall>k<numcorrelators c. \<forall>i<p c. \<not> written h ! k ! i \<longrightarrow> shift s ! k ! i = - 20000000000"
    and counts: "\<forall>k<numcorrelators c. \<forall>i<p c.
        ncorrelation s ! k ! i = nterms h ! k ! i \<and> nterms h ! k ! i = nboth h ! k ! i"
    by (simp_all add: accounted_def)
  from rows len have rows': "\<forall>l<numcorrelators c.
      length ((nterms h)[k := (nterms h ! k)[j := nterms h ! k ! j + 1]] ! l) = p c \<and>
      length ((nboth h)[k := (nboth h ! k)[j := nboth h ! k ! j + 1]] ! l) = p c"
    by (simp add: nth_update_any)
  from counts have counts': "\<forall>l<numcorrelators c. \<forall>i<p c.
      (ncorrelation s)[k := (ncorrelation s ! k)[j := ncorrelation s ! k ! j + 1]] ! l ! i
        = (nterms h)[k := (nterms h ! k)[j := nterms h ! k ! j + 1]] ! l ! i \<and>
      (nterms h)[k := (nterms h ! k)[j := nterms h ! k ! j + 1]] ! l ! i
        = (nboth h)[k := (nboth h ! k)[j := nboth h ! k ! j + 1]] ! l ! i"
    using allocated_lengths(3,9) [OF \<open>allocated c s\<close>] len rows assms(2,3)
    by (simp add: nth_nth_update_any)
  from al len rows rows' unwritten counts' show ?thesis
    unfolding accounted_def s' n' w' t' b' by simp
qed

lemma accounted_insert:
  assumes "accounted c s h" and "k < numcorrelators c" and "insertindex s ! k < p c"
  shows "accounted c (add_insert w k s) (mark k (insertindex s ! k) h)"
    and "written (mark k (insertindex s ! k) h) ! k ! (insertindex s ! k)"
proof -
  from assms(1) have als: "allocated c s"
    by (simp add: accounted_def)
  then have al: "allocated c (add_insert w k s)"
    by (simp add: allocated_shape)
  from assms(1) have len: "length (written h) = numcorrelators c"
    and rows: "\<forall>k<numcorrelators c. length (written h ! k) = p c \<and> length (nterms h ! k) = p c \<and>
        length (nboth h ! k) = p c"
    and unwritten: "\<forall>k<numcorrelators c. \<forall>i<p c. \<not> written h ! k ! i \<longrightarrow> shift s ! k ! i = - 20000000000"
    by (simp_all add: accounted_def)
  have fields: "ncorrelation (add_insert w k s) = ncorrelation s"
    "shift (add_insert w k s) = (shift s)[k := (shift s ! k)[insertindex s ! k := w]]"
    "written (mark k (insertindex s ! k) h) = (written h)[k := (written h ! k)[insertindex s ! k := True]]"
    "nterms (mark k (insertindex s ! k) h) = nterms h"
    "nboth (mark k (insertindex s ! k) h) = nboth h"
    by (simp_all add: add_insert_def mark_def)
  from len rows assms(2,3) show "written (mark k (insertindex s ! k) h) ! k ! (insertindex s ! k)"
    by (simp add: fields)
  from rows len have rows': "\<forall>l<numcorrelators c.
      length ((written h)[k := (written h ! k)[insertindex s ! k := True]] ! l) = p c"
    by (simp add: nth_update_any)
  from unwritten have unwritten': "\<forall>l<numcorrelators c. \<forall>i<p c.
      \<not> (written h)[k := (written h ! k)[insertindex s ! k := True]] ! l ! i \<longrightarrow>
      (shift s)[k := (shift s ! k)[insertindex s ! k := w]] ! l ! i = - 20000000000"
    using allocated_lengths(1,7) [OF als] len rows assms(2,3)
    by (simp add: nth_nth_update_any)
  from assms(1) al rows' unwritten' show "accounted c (add_insert w k s) (mark k (insertindex s ! k) h)"
    unfolding accounted_def fields by simp
qed

lemma accounted_cong:
  assumes "accounted c s h" and "shape s' = shape s" and "shift s' = shift s"
    and "ncorrelation s' = ncorrelation s"
  shows "accounted c s' h"
proof -
  from assms(1) have "shape s = shape (initialize c)"
    by (simp add: accounted_def allocated_shape)
  with assms(2) have "allocated c s'"
    by (simp only: allocated_shape)
  with assms(1,3,4) show ?thesis
    by (simp add: accounted_def)
qed

lemma accounted_add_reset:
  assumes "accounted c s h"
  shows "accounted c (add_reset k s) h"
proof -
  have "shift (add_reset k s) = shift s" and "ncorrelation (add_reset k s) = ncorrelation s"
    by (simp_all add: add_reset_def)
  with accounted_cong [OF assms, of "add_reset k s"] show ?thesis
    by simp
qed

lemma accounted_add_advance:
  assumes "accounted c s h"
  shows "accounted c (add_advance c k s) h"
proof -
  have "shift (add_advance c k s) = shift s" and "ncorrelation (add_advance c k s) = ncorrelation s"
    and "shape (add_advance c k s) = shape s"
    by (simp_all add: add_advance_def shape_def)
  with accounted_cong [OF assms, of "add_advance c k s"] show ?thesis
    by simp
qed

lemma accounted_correlate:
  assumes "accounted c s h" and "k < numcorrelators c" and "insertindex s ! k < p c"
    and "written h ! k ! (insertindex s ! k)"
  shows "accounted c (add_finish c k s) (hist_correlate c k s h) \<and>
    written (hist_correlate c k s h) = written h"
proof -
  let ?Q = "\<lambda>s' h'. accounted c s' h' \<and> written h' = written h"
  have "?Q (add_correlate c k s) (hist_correlate c k s h)"
  proof (rule correlate_pair_rule [of ?Q, OF _ assms(3)])
    from assms(1) show "accounted c s h \<and> written h = written h"
      by simp
  next
    fix j i s' h'
    assume "j < p c" and "i < p c" and q: "accounted c s' h' \<and> written h' = written h"
    with assms(4) have "written h' ! k ! (insertindex s ! k)"
      by simp
    from accounted_step [OF _ assms(2) \<open>j < p c\<close> \<open>i < p c\<close> this] q
    show "accounted c (corr_step k (insertindex s ! k) j i s') (tally k (insertindex s ! k) j i s' h') \<and>
        written (tally k (insertindex s ! k) j i s' h') = written h"
      by simp
  qed
  then show ?thesis
    by (simp add: add_finish_def accounted_add_advance)
qed

lemma written_mark_mono: "written h ! l ! i \<Longrightarrow> written (mark k j h) ! l ! i"
  by (simp add: mark_def nth_nth_update_any)

lemma add_accounted:
  assumes "add c w k s = Some s'"
  shows "\<forall>h. accounted c s h \<longrightarrow> accounted c s' (hist_add c w k s h) \<and>
    (\<forall>l i. written h ! l ! i \<longrightarrow> written (hist_add c w k s h) ! l ! i)"
  using assms
proof (induction rule: add_Some_induct)
  case (drop w s)
  show ?case
    by (simp add: hist_add.simps [of c w "numcorrelators c" s])
next
  case (plain w k s)
  let ?v = "add_insert w k s"
  show ?case
  proof (intro allI impI)
    fix h
    assume acc: "accounted c s h"
    let ?hm = "mark k (insertindex s ! k) h"
    from plain have h': "hist_add c w k s h = hist_correlate c k ?v ?hm"
      by (simp add: hist_add.simps [of c w k s h])
    note ins = accounted_insert(1) [OF acc plain(1,2), of w] accounted_insert(2) [OF acc plain(1,2)]
    from accounted_correlate [OF ins(1) plain(1)] plain(2) ins(2)
    have "accounted c (add_finish c k ?v) (hist_correlate c k ?v ?hm) \<and>
        written (hist_correlate c k ?v ?hm) = written ?hm"
      by simp
    then show "accounted c (add_finish c k ?v) (hist_add c w k s h) \<and>
        (\<forall>l i. written h ! l ! i \<longrightarrow> written (hist_add c w k s h) ! l ! i)"
      by (simp add: h' written_mark_mono)
  qed
next
  case (cascade w k s u)
  let ?v = "add_insert w k s"
  let ?x = "accumulator ?v ! k / real (m c)"
  show ?case
  proof (intro allI impI)
    fix h
    assume acc: "accounted c s h"
    let ?hm = "mark k (insertindex s ! k) h"
    let ?hu = "hist_add c ?x (k + 1) ?v ?hm"
    from cascade(1-4) have h': "hist_add c w k s h = hist_correlate c k (add_reset k u) ?hu"
      by (simp add: hist_add.simps [of c w k s h])
    note ins = accounted_insert(1) [OF acc cascade(1,2), of w] accounted_insert(2) [OF acc cascade(1,2)]
    from cascade(5) ins(1) have up: "accounted c u ?hu"
      and mono: "\<forall>l i. written ?hm ! l ! i \<longrightarrow> written ?hu ! l ! i"
      by simp_all
    from add_level_below [OF cascade(4)] have "level u k = level ?v k"
      by simp
    then have ind: "insertindex (add_reset k u) ! k = insertindex s ! k"
      by (simp add: level_def add_reset_def)
    from mono ins(2) have "written ?hu ! k ! (insertindex s ! k)"
      by simp
    from accounted_correlate [OF accounted_add_reset [OF up] cascade(1), of k] ind cascade(2) this
    have "accounted c (add_finish c k (add_reset k u)) (hist_correlate c k (add_reset k u) ?hu) \<and>
        written (hist_correlate c k (add_reset k u) ?hu) = written ?hu"
      by simp
    with mono show "accounted c (add_finish c k (add_reset k u)) (hist_add c w k s h) \<and>
        (\<forall>l i. written h ! l ! i \<longrightarrow> written (hist_add c w k s h) ! l ! i)"
      by (simp add: h' written_mark_mono)
  qed
qed

lemma evaluate_accounted:
  assumes "evaluate c nrm s = Some s'" and "accounted c s h"
  shows "accounted c s' h"
proof -
  from accumulated_evaluate [OF assms(1)]
  have "shift s' = shift s" and "ncorrelation s' = ncorrelation s"
    by (simp_all add: accumulated_def)
  with accounted_cong [OF assms(2) shape_evaluate [OF assms(1)]] show ?thesis
    by simp
qed

lemma run_accounted:
  "run c calls s = Some s' \<Longrightarrow> accounted c s h \<Longrightarrow> accounted c s' (hist_run c calls s h)"
proof (induction calls arbitrary: s h)
  case Nil
  then show ?case
    by simp
next
  case (Cons a calls)
  show ?case
  proof (cases a)
    case (Add w k)
    with Cons.prems(1) obtain u where u: "add c w k s = Some u" and rest: "run c calls u = Some s'"
      by (auto split: option.splits)
    from add_accounted [OF u] Cons.prems(2) have "accounted c u (hist_add c w k s h)"
      by simp
    from Cons.IH [OF rest this] u Add show ?thesis
      by simp
  next
    case (Evaluate nrm)
    with Cons.prems(1) obtain u where u: "evaluate c nrm s = Some u" and rest: "run c calls u = Some s'"
      by (auto split: option.splits)
    from Cons.IH [OF rest evaluate_accounted [OF u Cons.prems(2)]] u Evaluate show ?thesis
      by simp
  qed
qed

text \<open>
  C6. After any sequence of calls of \<^verbatim>\<open>add\<close> (at any level, with any real values, and with
  calls of \<^verbatim>\<open>evaluate\<close> in between) on a freshly initialized engine, every count
  \<^verbatim>\<open>ncorrelation[k][i]\<close> is the number of products that were added to \<^verbatim>\<open>correlation[k][i]\<close>,
  and each of these products had both its factors in slots that \<^verbatim>\<open>add\<close> had written: the
  count is also the number of added products with both factors written.
\<close>

theorem count_is_number_of_written_products:
  assumes "run c calls (initialize c) = Some s"
  shows "\<forall>k<numcorrelators c. \<forall>i<p c.
    ncorrelation s ! k ! i = nterms (hist_run c calls (initialize c) (no_history c)) ! k ! i \<and>
    ncorrelation s ! k ! i = nboth (hist_run c calls (initialize c) (no_history c)) ! k ! i"
  using run_accounted [OF assms accounted_initialize] by (simp add: accounted_def)

theorem count_is_number_of_written_products_witness:
  "\<exists>s. run \<lparr>numcorrelators = 2, p = 4, m = 2\<rparr> [Add 1 0, Add (- 30000000000) 0, Add 2 0, Add 3 0]
       (initialize \<lparr>numcorrelators = 2, p = 4, m = 2\<rparr>) = Some s \<and>
     ncorrelation s ! 0 = [3, 2, 1, 1] \<and>
     ncorrelation s ! 0 ! 1 = nterms (hist_run \<lparr>numcorrelators = 2, p = 4, m = 2\<rparr>
       [Add 1 0, Add (- 30000000000) 0, Add 2 0, Add 3 0]
       (initialize \<lparr>numcorrelators = 2, p = 4, m = 2\<rparr>) (no_history \<lparr>numcorrelators = 2, p = 4, m = 2\<rparr>)) ! 0 ! 1 \<and>
     ncorrelation s ! 0 ! 1 = nboth (hist_run \<lparr>numcorrelators = 2, p = 4, m = 2\<rparr>
       [Add 1 0, Add (- 30000000000) 0, Add 2 0, Add 3 0]
       (initialize \<lparr>numcorrelators = 2, p = 4, m = 2\<rparr>) (no_history \<lparr>numcorrelators = 2, p = 4, m = 2\<rparr>)) ! 0 ! 1 \<and>
     written (hist_run \<lparr>numcorrelators = 2, p = 4, m = 2\<rparr>
       [Add 1 0, Add (- 30000000000) 0, Add 2 0, Add 3 0]
       (initialize \<lparr>numcorrelators = 2, p = 4, m = 2\<rparr>) (no_history \<lparr>numcorrelators = 2, p = 4, m = 2\<rparr>))
       = [[True, True, True, True], [True, True, False, False]]"
proof -
  define c where "c = \<lparr>numcorrelators = 2, p = 4, m = 2\<rparr>"
  define calls where "calls = [Add 1 0, Add (- 30000000000) 0, Add 2 0, Add 3 0]"
  have r: "run c calls (initialize c) \<noteq> None"
    and n: "ncorrelation (the (run c calls (initialize c))) ! 0 = [3, 2, 1, 1]"
    and w: "written (hist_run c calls (initialize c) (no_history c))
      = [[True, True, True, True], [True, True, False, False]]"
    unfolding c_def calls_def by code_simp+
  from r obtain s where s: "run c calls (initialize c) = Some s"
    by auto
  have "(0::nat) < numcorrelators c" and "(1::nat) < p c"
    by (simp_all add: c_def)
  with count_is_number_of_written_products [OF s] have
    "ncorrelation s ! 0 ! 1 = nterms (hist_run c calls (initialize c) (no_history c)) ! 0 ! 1 \<and>
     ncorrelation s ! 0 ! 1 = nboth (hist_run c calls (initialize c) (no_history c)) ! 0 ! 1"
    by blast
  with s n w show ?thesis
    unfolding c_def calls_def by auto
qed

end
